theory Spec2Isabelle
  imports Main "HOL-Library.FSet" "HOL-Library.Sublist"
begin

section \<open>Text: Python string operations used by the scraper\<close>

text \<open>
  Python strings are modelled as \<open>string\<close>, a character standing for the code point of
  its number; the model is exact on text of code points below 256 (Latin-1).
  \<open>isspace\<close> is the set of those characters that \<open>str.strip()\<close> and the regular
  expression class \<open>\s\<close> treat as whitespace (both use the same predicate in CPython):
  TAB, LF, VT, FF, CR, the four separators 0x1C..0x1F, the space, NEL (0x85) and the
  no-break space (0xA0).
\<close>

definition isspace :: "char \<Rightarrow> bool" where
  "isspace c = (c \<in> set [CHR 0x09, CHR 0x0A, CHR 0x0B, CHR 0x0C, CHR 0x0D,
                          CHR 0x1C, CHR 0x1D, CHR 0x1E, CHR 0x1F, CHR 0x20,
                          CHR 0x85, CHR 0xA0])"

text \<open>
  The cased letters below 256 with a lowercase form of their own: A..Z, and the Latin-1
  capitals 0xC0..0xDE without the multiplication sign 0xD7; each is 0x20 below its
  lowercase form.
\<close>

definition upper_letters :: "char list" where
  "upper_letters =
     ''ABCDEFGHIJKLMNOPQRSTUVWXYZ'' @
     [CHR 0xC0, CHR 0xC1, CHR 0xC2, CHR 0xC3, CHR 0xC4, CHR 0xC5, CHR 0xC6, CHR 0xC7,
      CHR 0xC8, CHR 0xC9, CHR 0xCA, CHR 0xCB, CHR 0xCC, CHR 0xCD, CHR 0xCE, CHR 0xCF,
      CHR 0xD0, CHR 0xD1, CHR 0xD2, CHR 0xD3, CHR 0xD4, CHR 0xD5, CHR 0xD6,
      CHR 0xD8, CHR 0xD9, CHR 0xDA, CHR 0xDB, CHR 0xDC, CHR 0xDD, CHR 0xDE]"

definition lower_letters :: "char list" where
  "lower_letters =
     ''abcdefghijklmnopqrstuvwxyz'' @
     [CHR 0xE0, CHR 0xE1, CHR 0xE2, CHR 0xE3, CHR 0xE4, CHR 0xE5, CHR 0xE6, CHR 0xE7,
      CHR 0xE8, CHR 0xE9, CHR 0xEA, CHR 0xEB, CHR 0xEC, CHR 0xED, CHR 0xEE, CHR 0xEF,
      CHR 0xF0, CHR 0xF1, CHR 0xF2, CHR 0xF3, CHR 0xF4, CHR 0xF5, CHR 0xF6,
      CHR 0xF8, CHR 0xF9, CHR 0xFA, CHR 0xFB, CHR 0xFC, CHR 0xFD, CHR 0xFE]"

definition lower_char :: "char \<Rightarrow> char" where
  "lower_char c =
     (case map_of (zip upper_letters lower_letters) c of
        None \<Rightarrow> c
      | Some l \<Rightarrow> l)"

text \<open>\<open>s.lower()\<close>\<close>

definition lower :: "string \<Rightarrow> string" where
  "lower s = map lower_char s"

text \<open>\<open>s.strip()\<close>: whitespace removed at both ends.\<close>

definition strip :: "string \<Rightarrow> string" where
  "strip s = rev (dropWhile isspace (rev (dropWhile isspace s)))"

text \<open>\<open>s.startswith(p)\<close>\<close>

definition startswith :: "string \<Rightarrow> string \<Rightarrow> bool" where
  "startswith s p = (take (length p) s = p)"

text \<open>\<open>k in s\<close> on strings: \<open>k\<close> occurs in \<open>s\<close> as a contiguous substring.\<close>

fun contains :: "string \<Rightarrow> string \<Rightarrow> bool" where
  "contains k [] = (k = [])"
| "contains k (c # cs) = (startswith (c # cs) k \<or> contains k cs)"

text \<open>
  \<open>re.sub(r'\s+', ' ', s)\<close>: scanning from the left, every maximal run of whitespace is
  replaced by one space (the quantifier \<open>+\<close> is greedy), everything else is copied.
\<close>

function re_sub_ws :: "string \<Rightarrow> string" where
  "re_sub_ws [] = []"
| "re_sub_ws (c # cs) =
     (if isspace c then CHR 0x20 # re_sub_ws (dropWhile isspace cs) else c # re_sub_ws cs)"
  by pat_completeness auto
termination
  by (relation "measure length") (auto simp: le_imp_less_Suc length_dropWhile_le)

text \<open>
  The words of a text (its maximal runs of non-whitespace characters, as \<open>s.split()\<close>
  returns them) and their join with single spaces. \<open>join_sp (ws_words s)\<close> is the text
  \<open>s\<close> with leading and trailing whitespace trimmed and every internal run of whitespace
  collapsed to a single space: the normal form the specification describes.
\<close>

function ws_words :: "string \<Rightarrow> string list" where
  "ws_words [] = []"
| "ws_words (c # cs) =
     (if isspace c then ws_words cs
      else (c # takeWhile (\<lambda>x. \<not> isspace x) cs) # ws_words (dropWhile (\<lambda>x. \<not> isspace x) cs))"
  by pat_completeness auto
termination
  by (relation "measure length") (auto simp: le_imp_less_Suc length_dropWhile_le)

fun join_sp :: "string list \<Rightarrow> string" where
  "join_sp [] = []"
| "join_sp [w] = w"
| "join_sp (w # v # ws) = w @ CHR 0x20 # join_sp (v # ws)"

definition spec_normalize :: "string \<Rightarrow> string" where
  "spec_normalize s = join_sp (ws_words s)"

section \<open>Extracted records and the relevance filter\<close>

text \<open>The dictionary \<open>{"prompt": ..., "page": ..., "content": ...}\<close> appended to \<open>all_data\<close>.\<close>

record item =
  prompt :: string
  page :: int
  content :: string

definition keywords_list :: "string list" where
  "keywords_list = [''job'', ''employment'', ''career'', ''internship'', ''fellowship'']"

text \<open>
  \<open>_is_relevant\<close> of rufus.py. The spaCy pipeline \<open>nlp\<close> is a parameter: it maps a text
  to the lemmas (\<open>token.lemma_\<close>) of its tokens, in order.
\<close>

definition is_relevant :: "(string \<Rightarrow> string list) \<Rightarrow> string \<Rightarrow> string list \<Rightarrow> bool" where
  "is_relevant nlp text kws = list_ex (\<lambda>lemma. lemma \<in> set kws) (nlp text)"

text \<open>
  \<open>filter_data\<close> of rufus.py: the loop over \<open>data\<close> with its two accumulators, the list
  \<open>filtered_data\<close> and the set \<open>seen\<close>.
\<close>

fun filter_loop ::
  "(string \<Rightarrow> string list) \<Rightarrow> item list \<Rightarrow> item list \<Rightarrow> string set \<Rightarrow> item list" where
  "filter_loop nlp [] filtered_data seen = filtered_data"
| "filter_loop nlp (it # data) filtered_data seen =
     (let c = lower (content it) in
      if is_relevant nlp c keywords_list \<and> c \<notin> seen
      then filter_loop nlp data (filtered_data @ [it]) (insert c seen)
      else filter_loop nlp data filtered_data seen)"

text \<open>The key under which \<open>filter_data\<close> remembers an item in \<open>seen\<close>.\<close>

definition dedup_key :: "item \<Rightarrow> string" where
  "dedup_key it = lower (content it)"

definition filter_data :: "(string \<Rightarrow> string list) \<Rightarrow> item list \<Rightarrow> item list" where
  "filter_data nlp data = filter_loop nlp data [] {}"

text \<open>
  \<open>filter_data\<close> of rufus_rag.py: a list comprehension keeping every item whose
  lowercased content contains a keyword as a substring; there is no \<open>seen\<close> set.
\<close>

definition rag_filter_data :: "item list \<Rightarrow> item list" where
  "rag_filter_data data =
     filter (\<lambda>it. list_ex (\<lambda>keyword. contains keyword (lower (content it))) keywords_list) data"


section \<open>The browser, the crawl state and the trace of effects\<close>

type_synonym url = string
type_synonym handle = nat
type_synonym link = nat

text \<open>
  An element matched by \<open>soup.select\<close>, reduced to what \<open>get_text\<close> reads: the text of its
  descendant text nodes, in document order.
\<close>

type_synonym element = "string list"

text \<open>
  The outcome of an awaited call: a value, Playwright's \<open>TimeoutError\<close>, or any other
  exception (\<open>Exception\<close>).
\<close>

datatype 'a res = Ok 'a | Timeout | Error

datatype log_msg =
    NavTimeoutRetry url nat
  | NavUnexpected
  | NavFailed
  | ExtractTimeout nat
  | ExtractError nat
  | LinkTimeout
  | LinkError
  | Extracted string
  | RetryTimeout nat url
  | RetryError nat url
  | HrefError

text \<open>Every browser call, sleep and log message of a run, in the order it happens.\<close>

datatype event =
    Goto handle url
  | WaitLoadState handle
  | Scroll handle
  | Dwell handle
  | WaitSelector handle
  | Content handle
  | QueryLinks handle
  | GetHref link
  | NewPage
  | ClosePage handle
  | Launch
  | ContextClose
  | Sleep nat
  | Log log_msg

text \<open>
  The Playwright browser, the HTML parser and the language model are external: they are a
  parameter of the model, a record of operations over a browser state \<open>'w\<close> that every
  call may change. \<open>launch\<close> stands for \<open>chromium.launch\<close>, \<open>new_context\<close> and the first
  \<open>new_page\<close>; \<open>soup_select html css\<close> for \<open>BeautifulSoup(html, 'html.parser').select(css)\<close>
  (\<open>None\<close> when it raises).
\<close>

record 'w browser =
  goto :: "handle \<Rightarrow> url \<Rightarrow> int \<Rightarrow> 'w \<Rightarrow> unit res \<times> 'w"
  wait_for_load_state :: "handle \<Rightarrow> 'w \<Rightarrow> unit res \<times> 'w"
  evaluate :: "handle \<Rightarrow> 'w \<Rightarrow> unit res \<times> 'w"
  wait_for_timeout :: "handle \<Rightarrow> 'w \<Rightarrow> unit res \<times> 'w"
  wait_for_selector :: "handle \<Rightarrow> string \<Rightarrow> 'w \<Rightarrow> unit res \<times> 'w"
  page_content :: "handle \<Rightarrow> 'w \<Rightarrow> string res \<times> 'w"
  soup_select :: "string \<Rightarrow> string \<Rightarrow> element list option"
  query_selector_all :: "handle \<Rightarrow> 'w \<Rightarrow> link list res \<times> 'w"
  get_attribute :: "link \<Rightarrow> 'w \<Rightarrow> string option res \<times> 'w"
  new_page :: "handle \<Rightarrow> 'w \<Rightarrow> handle res \<times> 'w"
  close_page :: "handle \<Rightarrow> 'w \<Rightarrow> unit res \<times> 'w"
  launch :: "'w \<Rightarrow> handle res \<times> 'w"
  context_close :: "'w \<Rightarrow> unit res \<times> 'w"
  nlp_lemmas :: "string \<Rightarrow> string list"

text \<open>The attributes of a \<open>RufusClient\<close> and its constructor \<open>__init__\<close>.\<close>

record client =
  verbose :: bool
  max_retries :: int
  all_data :: "item list"

definition RufusClient_init :: "bool \<Rightarrow> int \<Rightarrow> client" where
  "RufusClient_init vb mr = \<lparr>verbose = vb, max_retries = mr, all_data = []\<rparr>"

definition default_client :: client where
  "default_client = RufusClient_init True 3"

text \<open>
  The state a crawl works on: the client object \<open>self\<close>, the browser, the set \<open>visited\<close>
  and the trace. \<open>admitted\<close> is an auxiliary history: the addresses given to
  \<open>visited.add\<close>, in the order of the calls, so that the value of the set at every point
  of a crawl can be spoken of.
\<close>

record 'w state =
  self :: client
  world :: 'w
  visited :: "url fset"
  trace :: "event list"
  admitted :: "url list"

text \<open>The arguments \<open>_crawl_links\<close> passes down unchanged.\<close>

record args =
  css_selector :: string
  prompt_arg :: string
  pages :: int
  timeout :: int

definition emit :: "event \<Rightarrow> 'w state \<Rightarrow> 'w state" where
  "emit ev st = st\<lparr>trace := trace st @ [ev]\<rparr>"

definition call :: "event \<Rightarrow> ('w \<Rightarrow> 'a res \<times> 'w) \<Rightarrow> 'w state \<Rightarrow> 'a res \<times> 'w state" where
  "call ev f st = (case f (world st) of (r, w) \<Rightarrow> (r, st\<lparr>world := w, trace := trace st @ [ev]\<rparr>))"

text \<open>The events a step has added to the trace.\<close>

definition new_events :: "'w state \<Rightarrow> 'w state \<Rightarrow> event list" where
  "new_events st st' = drop (length (trace st)) (trace st')"

definition gotos :: "event list \<Rightarrow> url list" where
  "gotos tr = concat (map (\<lambda>e. case e of Goto p u \<Rightarrow> [u] | _ \<Rightarrow> []) tr)"

text \<open>The navigation calls and the sleeps of a trace, in order.\<close>

definition is_goto_or_sleep :: "event \<Rightarrow> bool" where
  "is_goto_or_sleep e = (case e of Goto p u \<Rightarrow> True | Sleep n \<Rightarrow> True | _ \<Rightarrow> False)"

definition goto_sleep :: "event list \<Rightarrow> event list" where
  "goto_sleep tr = filter is_goto_or_sleep tr"

section \<open>Navigation with retries: \<open>_navigate_to_url\<close>\<close>

text \<open>
  The body of the \<open>try\<close>: four awaited calls; the first that raises ends the attempt with
  its exception.
\<close>

definition settle_attempt ::
  "'w browser \<Rightarrow> handle \<Rightarrow> url \<Rightarrow> int \<Rightarrow> 'w state \<Rightarrow> unit res \<times> 'w state" where
  "settle_attempt B p u t st =
     (case call (Goto p u) (goto B p u t) st of
        (Ok _, s1) \<Rightarrow>
          (case call (WaitLoadState p) (wait_for_load_state B p) s1 of
             (Ok _, s2) \<Rightarrow>
               (case call (Scroll p) (evaluate B p) s2 of
                  (Ok _, s3) \<Rightarrow> call (Dwell p) (wait_for_timeout B p) s3
                | (Timeout, s3) \<Rightarrow> (Timeout, s3)
                | (Error, s3) \<Rightarrow> (Error, s3))
           | (Timeout, s2) \<Rightarrow> (Timeout, s2)
           | (Error, s2) \<Rightarrow> (Error, s2))
      | (Timeout, s1) \<Rightarrow> (Timeout, s1)
      | (Error, s1) \<Rightarrow> (Error, s1))"

text \<open>
  What one attempt does to the browser alone: the outcome of the four steps and the browser
  state they leave. The attempt times out when the first of \<open>goto\<close>, \<open>wait_for_load_state\<close>,
  \<open>evaluate\<close> and \<open>wait_for_timeout\<close> not to succeed raises a timeout.
\<close>

definition attempt_on :: "'w browser \<Rightarrow> handle \<Rightarrow> url \<Rightarrow> int \<Rightarrow> 'w \<Rightarrow> unit res \<times> 'w" where
  "attempt_on B p u t w =
     (case goto B p u t w of
        (Ok _, w1) \<Rightarrow>
          (case wait_for_load_state B p w1 of
             (Ok _, w2) \<Rightarrow>
               (case evaluate B p w2 of
                  (Ok _, w3) \<Rightarrow> wait_for_timeout B p w3
                | (Timeout, w3) \<Rightarrow> (Timeout, w3)
                | (Error, w3) \<Rightarrow> (Error, w3))
           | (Timeout, w2) \<Rightarrow> (Timeout, w2)
           | (Error, w2) \<Rightarrow> (Error, w2))
      | (Timeout, w1) \<Rightarrow> (Timeout, w1)
      | (Error, w1) \<Rightarrow> (Error, w1))"

text \<open>
  Of at most \<open>n\<close> attempts made one after the other on the browser, the number of attempts
  that time out before the first that does not.
\<close>

fun timeouts_in_a_row :: "'w browser \<Rightarrow> handle \<Rightarrow> url \<Rightarrow> int \<Rightarrow> nat \<Rightarrow> 'w \<Rightarrow> nat" where
  "timeouts_in_a_row B p u t 0 w = 0"
| "timeouts_in_a_row B p u t (Suc n) w =
     (case attempt_on B p u t w of
        (Ok _, w') \<Rightarrow> 0
      | (Timeout, w') \<Rightarrow> Suc (timeouts_in_a_row B p u t n w')
      | (Error, w') \<Rightarrow> 0)"

text \<open>
  How a navigation of at most \<open>n\<close> attempts ends on the browser: \<open>Ok\<close> when an attempt
  succeeds, \<open>Error\<close> when an attempt raises another exception than a timeout, \<open>Timeout\<close>
  when all \<open>n\<close> attempts have timed out. The navigation fails in the last two cases.
\<close>

fun nav_result :: "'w browser \<Rightarrow> handle \<Rightarrow> url \<Rightarrow> int \<Rightarrow> nat \<Rightarrow> 'w \<Rightarrow> unit res" where
  "nav_result B p u t 0 w = Timeout"
| "nav_result B p u t (Suc n) w =
     (case attempt_on B p u t w of
        (Ok _, w') \<Rightarrow> Ok ()
      | (Timeout, w') \<Rightarrow> nav_result B p u t n w'
      | (Error, w') \<Rightarrow> Error)"

text \<open>
  The loop \<open>for attempt in range(self.max_retries)\<close>, over the attempt numbers still to
  run. It returns nothing: success, an unexpected error and exhausted retries all come
  back to the caller the same way, told apart only by the log. rufus.py and rufus_rag.py
  have the same \<open>_navigate_to_url\<close> (they differ in the level and wording of the retry
  message), so this is the model of both.
\<close>

fun navigate_attempts ::
  "'w browser \<Rightarrow> handle \<Rightarrow> url \<Rightarrow> int \<Rightarrow> nat list \<Rightarrow> 'w state \<Rightarrow> 'w state" where
  "navigate_attempts B p u t [] st = emit (Log NavFailed) st"
| "navigate_attempts B p u t (attempt # rest) st =
     (case settle_attempt B p u t st of
        (Ok _, s) \<Rightarrow> s
      | (Timeout, s) \<Rightarrow>
          navigate_attempts B p u t rest
            (emit (Sleep (2 ^ attempt)) (emit (Log (NavTimeoutRetry u (attempt + 1))) s))
      | (Error, s) \<Rightarrow> emit (Log NavUnexpected) s)"

definition navigate_to_url :: "'w browser \<Rightarrow> handle \<Rightarrow> url \<Rightarrow> int \<Rightarrow> 'w state \<Rightarrow> 'w state" where
  "navigate_to_url B p u t st =
     navigate_attempts B p u t [0..<nat (max_retries (self st))] st"

section \<open>Extraction: \<open>_extract_data_from_page\<close>\<close>

text \<open>The function is the same in rufus.py and rufus_rag.py.\<close>

text \<open>
  \<open>element.get_text(strip=True)\<close> of BeautifulSoup: every text node is stripped on its own,
  the empty ones are skipped, and the rest are joined with the empty separator.
\<close>

definition get_text_strip :: "element \<Rightarrow> string" where
  "get_text_strip el = concat (filter (\<lambda>s. length s \<noteq> 0) (map strip el))"

text \<open>The element's text as it stands: all its text nodes, concatenated.\<close>

definition visible_text :: "element \<Rightarrow> string" where
  "visible_text el = concat el"

definition append_data :: "item \<Rightarrow> 'w state \<Rightarrow> 'w state" where
  "append_data d st = st\<lparr>self := (self st)\<lparr>all_data := all_data (self st) @ [d]\<rparr>\<rparr>"

definition structured_data :: "string \<Rightarrow> int \<Rightarrow> string \<Rightarrow> item" where
  "structured_data pr page_num text_content =
     \<lparr>prompt = pr, page = page_num, content = re_sub_ws text_content\<rparr>"

fun extract_loop :: "string \<Rightarrow> int \<Rightarrow> element list \<Rightarrow> 'w state \<Rightarrow> 'w state" where
  "extract_loop pr page_num [] st = st"
| "extract_loop pr page_num (el # els) st =
     (let text_content = get_text_strip el;
          s1 = emit (Log (Extracted text_content)) st
      in extract_loop pr page_num els (append_data (structured_data pr page_num text_content) s1))"

definition extract_data_from_page ::
  "'w browser \<Rightarrow> handle \<Rightarrow> string \<Rightarrow> string \<Rightarrow> int \<Rightarrow> 'w state \<Rightarrow> unit res \<times> 'w state" where
  "extract_data_from_page B p pr css page_num st =
     (case call (WaitSelector p) (wait_for_selector B p css) st of
        (Ok _, s1) \<Rightarrow>
          (case call (Content p) (page_content B p) s1 of
             (Ok html, s2) \<Rightarrow>
               (case soup_select B html css of
                  None \<Rightarrow> (Error, s2)
                | Some elements \<Rightarrow> (Ok (), extract_loop pr page_num elements s2))
           | (Timeout, s2) \<Rightarrow> (Timeout, s2)
           | (Error, s2) \<Rightarrow> (Error, s2))
      | (Timeout, s1) \<Rightarrow> (Timeout, s1)
      | (Error, s1) \<Rightarrow> (Error, s1))"

section \<open>The crawl of rufus.py: \<open>_crawl_links\<close>\<close>

text \<open>
  The test on a discovered link,
  \<open>next_url and next_url.startswith('http') and next_url not in visited\<close>: the address to
  follow, if the test passes (\<open>get_attribute\<close> gives \<open>None\<close> for a missing attribute).
\<close>

definition wanted :: "string option \<Rightarrow> url fset \<Rightarrow> url option" where
  "wanted next_url vis =
     (case next_url of
        None \<Rightarrow> None
      | Some u \<Rightarrow> if u \<noteq> [] \<and> startswith u ''http'' \<and> u |\<notin>| vis then Some u else None)"

text \<open>
  \<open>finally: await new_page.close()\<close> around a body that ended with \<open>r\<close>: an exception of
  \<open>close\<close> replaces the body's outcome.
\<close>

definition finally_close :: "'w browser \<Rightarrow> handle \<Rightarrow> unit res \<times> 'w state \<Rightarrow> unit res \<times> 'w state" where
  "finally_close B np body =
     (case body of (r, s) \<Rightarrow>
        (case call (ClosePage np) (close_page B np) s of
           (Ok _, s') \<Rightarrow> (r, s')
         | (Timeout, s') \<Rightarrow> (Timeout, s')
         | (Error, s') \<Rightarrow> (Error, s')))"

text \<open>The two \<open>except\<close> clauses of the loop over the links: log and go on.\<close>

definition handle_link :: "unit res \<times> 'w state \<Rightarrow> 'w state" where
  "handle_link body =
     (case body of
        (Ok _, s) \<Rightarrow> s
      | (Timeout, s) \<Rightarrow> emit (Log LinkTimeout) s
      | (Error, s) \<Rightarrow> emit (Log LinkError) s)"

text \<open>
  \<open>_crawl_links\<close> with the loop over the links (\<open>crawl_loop\<close>) and the body of that loop
  (\<open>visit_link\<close>). The first argument bounds the depth of the recursion: \<open>None\<close> means that
  the bound was reached, and a result \<open>Some (r, st)\<close> means that the call came back, normally
  or by raising \<open>r\<close> (only \<open>query_selector_all\<close> can raise out of \<open>_crawl_links\<close>).
\<close>

fun crawl_links ::
    "nat \<Rightarrow> 'w browser \<Rightarrow> args \<Rightarrow> handle \<Rightarrow> url \<Rightarrow> 'w state \<Rightarrow> (unit res \<times> 'w state) option"
  and crawl_loop ::
    "nat \<Rightarrow> 'w browser \<Rightarrow> args \<Rightarrow> handle \<Rightarrow> link list \<Rightarrow> 'w state \<Rightarrow> 'w state option"
  and visit_link ::
    "nat \<Rightarrow> 'w browser \<Rightarrow> args \<Rightarrow> handle \<Rightarrow> link \<Rightarrow> 'w state \<Rightarrow> 'w state option"
where
  "crawl_links 0 B a p u st = None"
| "crawl_links (Suc d) B a p u st =
     (if pages a \<le> int (fcard (visited st)) \<or> u |\<in>| visited st then Some (Ok (), st)
      else
        let s1 = st\<lparr>visited := finsert u (visited st), admitted := admitted st @ [u]\<rparr>;
            s2 = navigate_to_url B p u (timeout a) s1
        in case extract_data_from_page B p (prompt_arg a) (css_selector a)
                  (int (fcard (visited s2))) s2 of
             (Timeout, s3) \<Rightarrow> Some (Ok (), emit (Log (ExtractTimeout (fcard (visited s3)))) s3)
           | (Error, s3) \<Rightarrow> Some (Ok (), emit (Log (ExtractError (fcard (visited s3)))) s3)
           | (Ok _, s3) \<Rightarrow>
               (case call (QueryLinks p) (query_selector_all B p) s3 of
                  (Ok links, s4) \<Rightarrow>
                    (case crawl_loop d B a p links s4 of
                       None \<Rightarrow> None
                     | Some s5 \<Rightarrow> Some (Ok (), s5))
                | (Timeout, s4) \<Rightarrow> Some (Timeout, s4)
                | (Error, s4) \<Rightarrow> Some (Error, s4)))"
| "crawl_loop d B a p [] st = Some st"
| "crawl_loop d B a p (l # ls) st =
     (case visit_link d B a p l st of
        None \<Rightarrow> None
      | Some s \<Rightarrow> crawl_loop d B a p ls s)"
| "visit_link d B a p l st =
     (case call (GetHref l) (get_attribute B l) st of
        (Timeout, s1) \<Rightarrow> Some (handle_link (Timeout, s1))
      | (Error, s1) \<Rightarrow> Some (handle_link (Error, s1))
      | (Ok href, s1) \<Rightarrow>
          (case wanted href (visited s1) of
             None \<Rightarrow> Some s1
           | Some next_url \<Rightarrow>
               (case call NewPage (new_page B p) s1 of
                  (Timeout, s2) \<Rightarrow> Some (handle_link (Timeout, s2))
                | (Error, s2) \<Rightarrow> Some (handle_link (Error, s2))
                | (Ok np, s2) \<Rightarrow>
                    (case call (Goto np next_url) (goto B np next_url (timeout a)) s2 of
                       (Timeout, s3) \<Rightarrow> Some (handle_link (finally_close B np (Timeout, s3)))
                     | (Error, s3) \<Rightarrow> Some (handle_link (finally_close B np (Error, s3)))
                     | (Ok _, s3) \<Rightarrow>
                         (case crawl_links d B a np next_url s3 of
                            None \<Rightarrow> None
                          | Some body \<Rightarrow> Some (handle_link (finally_close B np body)))))))"

text \<open>
  \<open>scrape\<close> of rufus.py. \<open>visited\<close> is created here; \<open>self.all_data\<close> is the list the
  constructor created. An exception of the crawl or of \<open>context.close()\<close> leaves \<open>scrape\<close>
  without a value.
\<close>

definition scrape ::
  "nat \<Rightarrow> 'w browser \<Rightarrow> url \<Rightarrow> string \<Rightarrow> string \<Rightarrow> int \<Rightarrow> int \<Rightarrow> 'w state
     \<Rightarrow> (item list res \<times> 'w state) option" where
  "scrape d B u pr css pgs t st =
     (case call Launch (launch B) st of
        (Timeout, s1) \<Rightarrow> Some (Timeout, s1)
      | (Error, s1) \<Rightarrow> Some (Error, s1)
      | (Ok p, s1) \<Rightarrow>
          (case crawl_links d B \<lparr>css_selector = css, prompt_arg = pr, pages = pgs, timeout = t\<rparr>
                  p u (s1\<lparr>visited := {||}\<rparr>) of
             None \<Rightarrow> None
           | Some (r, s2) \<Rightarrow>
               (case call ContextClose (context_close B) s2 of
                  (Timeout, s3) \<Rightarrow> Some (Timeout, s3)
                | (Error, s3) \<Rightarrow> Some (Error, s3)
                | (Ok _, s3) \<Rightarrow>
                    (case r of
                       Ok _ \<Rightarrow> Some (Ok (filter_data (nlp_lemmas B) (all_data (self s3))), s3)
                     | Timeout \<Rightarrow> Some (Timeout, s3)
                     | Error \<Rightarrow> Some (Error, s3)))))"

section \<open>Relations between the state before and after a step\<close>

text \<open>
  \<open>same_data\<close>: the step has only used the browser and written to the trace.
  \<open>ext N\<close>: the step has only added to \<open>visited\<close>, to \<open>all_data\<close> and to the trace, and has
  kept \<open>visited\<close> within \<open>N\<close> addresses if it was so before.
\<close>

definition same_data :: "'w state \<Rightarrow> 'w state \<Rightarrow> bool" where
  "same_data st st' \<longleftrightarrow>
     visited st' = visited st \<and> self st' = self st \<and> prefix (trace st) (trace st')
     \<and> admitted st' = admitted st"

text \<open>
  \<open>added new st st'\<close>: between the two states \<open>visited.add\<close> was called with the addresses
  \<open>new\<close>, in this order, each of them new to the set at its call, and nothing else
  changed the set.
\<close>

definition added :: "url list \<Rightarrow> 'w state \<Rightarrow> 'w state \<Rightarrow> bool" where
  "added new st st' \<longleftrightarrow>
     admitted st' = admitted st @ new
     \<and> distinct new
     \<and> (\<forall>x \<in> set new. x |\<notin>| visited st)
     \<and> visited st' = visited st |\<union>| fset_of_list new"

definition ext :: "int \<Rightarrow> 'w state \<Rightarrow> 'w state \<Rightarrow> bool" where
  "ext N st st' \<longleftrightarrow>
     visited st |\<subseteq>| visited st'
     \<and> (int (fcard (visited st)) \<le> N \<longrightarrow> int (fcard (visited st')) \<le> N)
     \<and> prefix (all_data (self st)) (all_data (self st'))
     \<and> prefix (trace st) (trace st')
     \<and> max_retries (self st') = max_retries (self st)
     \<and> (\<exists>new. added new st st')"

text \<open>
  The set \<open>visited\<close> at the points of a step that called \<open>visited.add\<close> with \<open>new\<close>: after
  the first \<open>i\<close> of these calls it is the set before the step with the first \<open>i\<close> addresses
  of \<open>new\<close>.
\<close>

definition visited_after :: "nat \<Rightarrow> url list \<Rightarrow> 'w state \<Rightarrow> url fset" where
  "visited_after i new st = visited st |\<union>| fset_of_list (take i new)"

text \<open>The number of addresses the budget still allows.\<close>

definition remaining :: "args \<Rightarrow> 'w state \<Rightarrow> nat" where
  "remaining a st = nat (pages a - int (fcard (visited st)))"

section \<open>The crawl of rufus_rag.py\<close>

text \<open>\<open>_get_link_href\<close>: any exception of \<open>get_attribute\<close> is logged and gives \<open>None\<close>.\<close>

definition get_link_href :: "'w browser \<Rightarrow> link \<Rightarrow> 'w state \<Rightarrow> string option \<times> 'w state" where
  "get_link_href B l st =
     (case call (GetHref l) (get_attribute B l) st of
        (Ok href, s) \<Rightarrow> (href, s)
      | (Timeout, s) \<Rightarrow> (None, emit (Log HrefError) s)
      | (Error, s) \<Rightarrow> (None, emit (Log HrefError) s))"

text \<open>
  The \<open>try\<close> around \<open>_extract_data_from_page\<close> in rufus_rag.py: both handlers log and
  fall through to the link discovery.
\<close>

definition rag_try_extract :: "unit res \<times> 'w state \<Rightarrow> 'w state" where
  "rag_try_extract body =
     (case body of
        (Ok _, s) \<Rightarrow> s
      | (Timeout, s) \<Rightarrow> emit (Log (ExtractTimeout (fcard (visited s)))) s
      | (Error, s) \<Rightarrow> emit (Log (ExtractError (fcard (visited s)))) s)"

text \<open>The two \<open>except\<close> clauses of \<open>_retry_navigation\<close>, for the attempt numbered \<open>attempt\<close>.\<close>

definition retry_handler :: "nat \<Rightarrow> url \<Rightarrow> unit res \<Rightarrow> 'w state \<Rightarrow> 'w state" where
  "retry_handler attempt next_url r s =
     (case r of
        Ok _ \<Rightarrow> s
      | Timeout \<Rightarrow> emit (Sleep 2) (emit (Log (RetryTimeout (attempt + 1) next_url)) s)
      | Error \<Rightarrow> emit (Log (RetryError (attempt + 1) next_url)) s)"

text \<open>
  \<open>_crawl_links\<close>, its loop over the links and \<open>_retry_navigation\<close> (the loop
  \<open>for attempt in range(3)\<close>, over the attempts still to run), with the same depth bound
  as above.
\<close>

fun rag_crawl_links ::
    "nat \<Rightarrow> 'w browser \<Rightarrow> args \<Rightarrow> handle \<Rightarrow> url \<Rightarrow> 'w state \<Rightarrow> (unit res \<times> 'w state) option"
  and rag_crawl_loop ::
    "nat \<Rightarrow> 'w browser \<Rightarrow> args \<Rightarrow> handle \<Rightarrow> link list \<Rightarrow> 'w state \<Rightarrow> 'w state option"
  and rag_retry_navigation ::
    "nat \<Rightarrow> 'w browser \<Rightarrow> args \<Rightarrow> handle \<Rightarrow> url \<Rightarrow> nat list \<Rightarrow> 'w state \<Rightarrow> 'w state option"
where
  "rag_crawl_links 0 B a p u st = None"
| "rag_crawl_links (Suc d) B a p u st =
     (if pages a \<le> int (fcard (visited st)) \<or> u |\<in>| visited st then Some (Ok (), st)
      else
        let s1 = st\<lparr>visited := finsert u (visited st), admitted := admitted st @ [u]\<rparr>;
            s2 = navigate_to_url B p u (timeout a) s1;
            s3 = rag_try_extract
                   (extract_data_from_page B p (prompt_arg a) (css_selector a)
                      (int (fcard (visited s2))) s2)
        in case call (QueryLinks p) (query_selector_all B p) s3 of
             (Ok links, s4) \<Rightarrow>
               (case rag_crawl_loop d B a p links s4 of
                  None \<Rightarrow> None
                | Some s5 \<Rightarrow> Some (Ok (), s5))
           | (Timeout, s4) \<Rightarrow> Some (Timeout, s4)
           | (Error, s4) \<Rightarrow> Some (Error, s4))"
| "rag_crawl_loop d B a p [] st = Some st"
| "rag_crawl_loop d B a p (l # ls) st =
     (case get_link_href B l st of
        (href, s1) \<Rightarrow>
          (case wanted href (visited s1) of
             None \<Rightarrow> rag_crawl_loop d B a p ls s1
           | Some next_url \<Rightarrow>
               (case rag_retry_navigation d B a p next_url [0..<3] s1 of
                  None \<Rightarrow> None
                | Some s2 \<Rightarrow> rag_crawl_loop d B a p ls s2)))"
| "rag_retry_navigation d B a p next_url [] st = Some st"
| "rag_retry_navigation d B a p next_url (attempt # rest) st =
     (case call (Goto p next_url) (goto B p next_url (timeout a)) st of
        (Timeout, s1) \<Rightarrow>
          rag_retry_navigation d B a p next_url rest (retry_handler attempt next_url Timeout s1)
      | (Error, s1) \<Rightarrow>
          rag_retry_navigation d B a p next_url rest (retry_handler attempt next_url Error s1)
      | (Ok _, s1) \<Rightarrow>
          (case call (WaitLoadState p) (wait_for_load_state B p) s1 of
             (Timeout, s2) \<Rightarrow>
               rag_retry_navigation d B a p next_url rest
                 (retry_handler attempt next_url Timeout s2)
           | (Error, s2) \<Rightarrow>
               rag_retry_navigation d B a p next_url rest
                 (retry_handler attempt next_url Error s2)
           | (Ok _, s2) \<Rightarrow>
               (case rag_crawl_links d B a p next_url s2 of
                  None \<Rightarrow> None
                | Some (Ok _, s3) \<Rightarrow> Some s3
                | Some (Timeout, s3) \<Rightarrow>
                    rag_retry_navigation d B a p next_url rest
                      (retry_handler attempt next_url Timeout s3)
                | Some (Error, s3) \<Rightarrow>
                    rag_retry_navigation d B a p next_url rest
                      (retry_handler attempt next_url Error s3))))"

section \<open>A scripted browser for concrete runs\<close>

text \<open>
  A test double of the browser: a site is a table of pages; each page says how loading it
  and waiting for network idle end, which elements match the selection rule, and the
  \<open>href\<close> of each of its anchors. The browser state records which address each page
  handle shows, the anchors handed out so far, and the next free page handle. A page
  that fails to load keeps showing what it showed before.
\<close>

record site_page =
  sp_goto :: "unit res"
  sp_idle :: "unit res"
  sp_elements :: "element list"
  sp_hrefs :: "string option list"

type_synonym site = "(url \<times> site_page) list"

record fake_world =
  shown :: "(handle \<times> url) list"
  anchors :: "string option list"
  next_handle :: handle

definition shown_page :: "site \<Rightarrow> handle \<Rightarrow> fake_world \<Rightarrow> site_page option" where
  "shown_page S p w = (case map_of (shown w) p of None \<Rightarrow> None | Some u \<Rightarrow> map_of S u)"

definition fake_goto :: "site \<Rightarrow> handle \<Rightarrow> url \<Rightarrow> int \<Rightarrow> fake_world \<Rightarrow> unit res \<times> fake_world" where
  "fake_goto S p u t w =
     (case map_of S u of
        None \<Rightarrow> (Error, w)
      | Some pg \<Rightarrow>
          (case sp_goto pg of
             Ok _ \<Rightarrow> (Ok (), w\<lparr>shown := (p, u) # shown w\<rparr>)
           | Timeout \<Rightarrow> (Timeout, w)
           | Error \<Rightarrow> (Error, w)))"

definition fake_idle :: "site \<Rightarrow> handle \<Rightarrow> fake_world \<Rightarrow> unit res \<times> fake_world" where
  "fake_idle S p w = (case shown_page S p w of None \<Rightarrow> (Ok (), w) | Some pg \<Rightarrow> (sp_idle pg, w))"

definition fake_wait_for_selector ::
  "site \<Rightarrow> handle \<Rightarrow> string \<Rightarrow> fake_world \<Rightarrow> unit res \<times> fake_world" where
  "fake_wait_for_selector S p css w =
     (case shown_page S p w of
        None \<Rightarrow> (Timeout, w)
      | Some pg \<Rightarrow> (if sp_elements pg = [] then Timeout else Ok (), w))"

definition fake_content :: "handle \<Rightarrow> fake_world \<Rightarrow> string res \<times> fake_world" where
  "fake_content p w = (case map_of (shown w) p of None \<Rightarrow> (Ok [], w) | Some u \<Rightarrow> (Ok u, w))"

definition fake_select :: "site \<Rightarrow> string \<Rightarrow> string \<Rightarrow> element list option" where
  "fake_select S html css =
     (case map_of S html of None \<Rightarrow> Some [] | Some pg \<Rightarrow> Some (sp_elements pg))"

definition fake_links :: "site \<Rightarrow> handle \<Rightarrow> fake_world \<Rightarrow> link list res \<times> fake_world" where
  "fake_links S p w =
     (case shown_page S p w of
        None \<Rightarrow> (Ok [], w)
      | Some pg \<Rightarrow>
          (Ok [length (anchors w) ..< length (anchors w) + length (sp_hrefs pg)],
           w\<lparr>anchors := anchors w @ sp_hrefs pg\<rparr>))"

definition fake_href :: "link \<Rightarrow> fake_world \<Rightarrow> string option res \<times> fake_world" where
  "fake_href l w = (if l < length (anchors w) then (Ok (anchors w ! l), w) else (Error, w))"

definition fake_new_page :: "fake_world \<Rightarrow> handle res \<times> fake_world" where
  "fake_new_page w = (Ok (next_handle w), w\<lparr>next_handle := Suc (next_handle w)\<rparr>)"

definition fake_browser :: "site \<Rightarrow> fake_world browser" where
  "fake_browser S =
     \<lparr>goto = fake_goto S,
      wait_for_load_state = fake_idle S,
      evaluate = (\<lambda>p w. (Ok (), w)),
      wait_for_timeout = (\<lambda>p w. (Ok (), w)),
      wait_for_selector = fake_wait_for_selector S,
      page_content = fake_content,
      soup_select = fake_select S,
      query_selector_all = fake_links S,
      get_attribute = fake_href,
      new_page = (\<lambda>p. fake_new_page),
      close_page = (\<lambda>p w. (Ok (), w)),
      launch = fake_new_page,
      context_close = (\<lambda>w. (Ok (), w)),
      nlp_lemmas = ws_words\<rparr>"

definition fresh_world :: fake_world where
  "fresh_world = \<lparr>shown = [], anchors = [], next_handle = 0\<rparr>"

definition fresh_state :: "client \<Rightarrow> fake_world state" where
  "fresh_state c = \<lparr>self = c, world = fresh_world, visited = {||}, trace = [], admitted = []\<rparr>"

section \<open>Concrete inputs\<close>

definition job_item :: item where
  "job_item = \<lparr>prompt = ''hr'', page = 1, content = ''We have a job opening''\<rparr>"

definition contact_item :: item where
  "contact_item = \<lparr>prompt = ''hr'', page = 1, content = ''Contact us''\<rparr>"

definition fair_item :: item where
  "fair_item = \<lparr>prompt = ''hr'', page = 1, content = ''Job fair''\<rparr>"

definition fair_item_again :: item where
  "fair_item_again = \<lparr>prompt = ''hr'', page = 2, content = ''job fair''\<rparr>"

definition jobless_item :: item where
  "jobless_item = \<lparr>prompt = ''hr'', page = 1, content = ''Jobless claims''\<rparr>"

text \<open>The text \<open>"Hiring   now\n\tfor  interns"\<close>.\<close>

definition hiring_text :: string where
  "hiring_text = ''Hiring   now'' @ [CHR 0x0A, CHR 0x09] @ ''for  interns''"

text \<open>The text nodes of \<open><p>Apply <a>here</a></p>\<close>.\<close>

definition apply_element :: element where
  "apply_element = [''Apply '', ''here'']"

text \<open>The text nodes of \<open><p>Find a <b>job</b> today</p>\<close>.\<close>

definition find_job_element :: element where
  "find_job_element = [''Find a '', ''job'', '' today'']"

text \<open>Crawl arguments with page budget \<open>n\<close>, and the state once the first page (handle 0) is open.\<close>

definition args_with :: "int \<Rightarrow> args" where
  "args_with n = \<lparr>css_selector = ''p'', prompt_arg = ''hr'', pages = n, timeout = 30000\<rparr>"

definition started :: "fake_world state" where
  "started =
     \<lparr>self = default_client,
      world = \<lparr>shown = [], anchors = [], next_handle = 1\<rparr>,
      visited = {||},
      trace = [],
      admitted = []\<rparr>"

text \<open>Two pages that link to each other.\<close>

definition two_page_site :: site where
  "two_page_site =
     [(''http://a'',
         \<lparr>sp_goto = Ok (), sp_idle = Ok (), sp_elements = [[''We have a job opening'']],
          sp_hrefs = [Some ''http://b'']\<rparr>),
      (''http://b'',
         \<lparr>sp_goto = Ok (), sp_idle = Ok (), sp_elements = [[''Career fair'']],
          sp_hrefs = [Some ''http://a'']\<rparr>)]"

text \<open>A page that links to itself.\<close>

definition loop_site :: site where
  "loop_site =
     [(''http://a'',
         \<lparr>sp_goto = Ok (), sp_idle = Ok (), sp_elements = [[''We have a job opening'']],
          sp_hrefs = [Some ''http://a'']\<rparr>)]"

text \<open>
  A page that loads but whose network never goes idle (it keeps polling), so that every
  navigation attempt times out at \<open>wait_for_load_state\<close>; it links to an ordinary page.
\<close>

definition busy_site :: site where
  "busy_site =
     [(''http://a'',
         \<lparr>sp_goto = Ok (), sp_idle = Timeout, sp_elements = [[''Career fair'']],
          sp_hrefs = [Some ''http://b'']\<rparr>),
      (''http://b'',
         \<lparr>sp_goto = Ok (), sp_idle = Ok (), sp_elements = [[''Internship programme'']],
          sp_hrefs = []\<rparr>)]"



text \<open>A page linking to a page that never loads.\<close>

definition slow_link_site :: site where
  "slow_link_site =
     [(''http://a'',
         \<lparr>sp_goto = Ok (), sp_idle = Ok (), sp_elements = [[''We have a job opening'']],
          sp_hrefs = [Some ''http://b'']\<rparr>),
      (''http://b'',
         \<lparr>sp_goto = Timeout, sp_idle = Ok (), sp_elements = [[''Career fair'']],
          sp_hrefs = []\<rparr>)]"

text \<open>What a finished crawl leaves behind: its trace, the contents it extracted, the visited set.\<close>

definition run_trace :: "(unit res \<times> 'w state) option \<Rightarrow> event list" where
  "run_trace run = (case run of None \<Rightarrow> [] | Some (r, s) \<Rightarrow> trace s)"


definition run_visited :: "(unit res \<times> 'w state) option \<Rightarrow> url fset" where
  "run_visited run = (case run of None \<Rightarrow> {||} | Some (r, s) \<Rightarrow> visited s)"

text \<open>The contents of the records a call of \<open>scrape\<close> returns.\<close>

definition returned :: "(item list res \<times> 'w state) option \<Rightarrow> string list" where
  "returned run = (case run of Some (Ok out, s) \<Rightarrow> map content out | _ \<Rightarrow> [])"

definition scrape_trace :: "(item list res \<times> 'w state) option \<Rightarrow> event list" where
  "scrape_trace run = (case run of None \<Rightarrow> [] | Some (r, s) \<Rightarrow> trace s)"

text \<open>The crawl of \<open>two_page_site\<close> from its first page with a budget of one page.\<close>

definition budget_one_run :: "(unit res \<times> fake_world state) option" where
  "budget_one_run = crawl_links 2 (fake_browser two_page_site) (args_with 1) 0 ''http://a'' started"


definition slow_link_run :: "(unit res \<times> fake_world state) option" where
  "slow_link_run =
     crawl_links 3 (fake_browser slow_link_site) (args_with 2) 0 ''http://a'' started"

definition rag_slow_link_run :: "(unit res \<times> fake_world state) option" where
  "rag_slow_link_run =
     rag_crawl_links 3 (fake_browser slow_link_site) (args_with 2) 0 ''http://a'' started"


text \<open>Two calls of \<open>scrape\<close> on one client, the second on the state the first left.\<close>

definition first_scrape :: "(item list res \<times> fake_world state) option" where
  "first_scrape =
     scrape 2 (fake_browser two_page_site) ''http://a'' ''hr'' ''p'' 1 30000
       (fresh_state default_client)"

definition second_scrape :: "(item list res \<times> fake_world state) option" where
  "second_scrape =
     (case first_scrape of
        None \<Rightarrow> None
      | Some (r, s) \<Rightarrow> scrape 2 (fake_browser two_page_site) ''http://b'' ''hr'' ''p'' 1 30000 s)"

section \<open>The relevance filter\<close>

lemma filter_loop_acc:
  "filter_loop nlp data acc seen = acc @ filter_loop nlp data [] seen"
proof (induction data arbitrary: acc seen)
  case Nil
  show ?case by simp
next
  case (Cons it data)
  have a: "filter_loop nlp data (acc @ [it]) S = acc @ [it] @ filter_loop nlp data [] S" for S
    using Cons.IH [of "acc @ [it]" S] by simp
  have b: "filter_loop nlp data [it] S = [it] @ filter_loop nlp data [] S" for S
    using Cons.IH [of "[it]" S] by simp
  show ?case
    using a b Cons.IH [of acc seen] by (simp add: Let_def)
qed

lemma filter_loop_Cons:
  "filter_loop nlp (it # data) [] seen =
     (if is_relevant nlp (lower (content it)) keywords_list \<and> lower (content it) \<notin> seen
      then it # filter_loop nlp data [] (insert (lower (content it)) seen)
      else filter_loop nlp data [] seen)"
  using filter_loop_acc [of nlp data "[it]"] by (simp add: Let_def)

lemma filter_loop_keys_fresh:
  "r \<in> set (filter_loop nlp data [] seen) \<Longrightarrow> lower (content r) \<notin> seen"
proof (induction data arbitrary: seen)
  case Nil
  then show ?case by simp
next
  case (Cons it data)
  then show ?case
    by (auto simp: filter_loop_Cons simp del: filter_loop.simps split: if_splits)
qed

lemma filter_loop_distinct:
  "distinct (map dedup_key (filter_loop nlp data [] seen))"
proof (induction data arbitrary: seen)
  case Nil
  show ?case by simp
next
  case (Cons it data)
  have fresh: "dedup_key r \<noteq> dedup_key it"
    if "r \<in> set (filter_loop nlp data [] (insert (lower (content it)) seen))" for r
    using filter_loop_keys_fresh [OF that] by (simp add: dedup_key_def)
  show ?case
    using Cons.IH fresh
    by (force simp: filter_loop_Cons simp del: filter_loop.simps)
qed

lemma filter_loop_relevant:
  "r \<in> set (filter_loop nlp data [] seen) \<Longrightarrow> is_relevant nlp (lower (content r)) keywords_list"
proof (induction data arbitrary: seen)
  case Nil
  then show ?case by simp
next
  case (Cons it data)
  then show ?case
    by (auto simp: filter_loop_Cons simp del: filter_loop.simps split: if_splits)
qed

lemma filter_loop_idem:
  "filter_loop nlp (filter_loop nlp data [] seen) [] seen = filter_loop nlp data [] seen"
proof (induction data arbitrary: seen)
  case Nil
  show ?case by simp
next
  case (Cons it data)
  show ?case
    using Cons.IH by (simp add: filter_loop_Cons del: filter_loop.simps)
qed

text \<open>
  C4. The output of \<open>filter_data\<close> of rufus.py never holds two records with the same
  lowercased content.
\<close>

theorem filter_data_dedup: "distinct (map dedup_key (filter_data nlp data))"
  by (simp add: filter_data_def filter_loop_distinct)

text \<open>
  C4, as stated, fails on the filter of rufus_rag.py: it keeps both of two records whose
  contents differ only in case.
\<close>

theorem rag_filter_data_keeps_duplicates:
  "rag_filter_data [fair_item, fair_item_again] = [fair_item, fair_item_again]
   \<and> dedup_key fair_item = dedup_key fair_item_again"
  by (simp add: rag_filter_data_def fair_item_def fair_item_again_def keywords_list_def
      dedup_key_def lower_def lower_char_def upper_letters_def lower_letters_def startswith_def)

text \<open>
  C5. Every record in the output of \<open>filter_data\<close> of rufus.py has a lowercased content one
  of whose lemmas, as the language model gives them, is a keyword.
\<close>

theorem filter_data_relevant:
  "\<forall>r \<in> set (filter_data nlp data).
     \<exists>lemma \<in> set (nlp (lower (content r))). lemma \<in> set keywords_list"
  using filter_loop_relevant [of _ nlp data "{}"]
  by (auto simp: filter_data_def is_relevant_def list_ex_iff)

theorem filter_data_relevant_witness:
  "job_item \<in> set (filter_data ws_words [job_item, contact_item])
   \<and> (\<exists>lemma \<in> set (ws_words (lower (content job_item))). lemma \<in> set keywords_list)"
proof -
  have m: "job_item \<in> set (filter_data ws_words [job_item, contact_item])"
    by (simp add: filter_data_def job_item_def contact_item_def is_relevant_def
        keywords_list_def lower_def lower_char_def upper_letters_def lower_letters_def isspace_def)
  show ?thesis
    using m filter_data_relevant [of ws_words "[job_item, contact_item]"] by blast
qed

text \<open>
  C5, as stated, fails on the filter of rufus_rag.py: it keeps a record whose content only
  contains a keyword inside a longer word, so that none of its tokens is a keyword.
\<close>

theorem rag_filter_data_substring_only:
  "jobless_item \<in> set (rag_filter_data [jobless_item])
   \<and> ws_words (lower (content jobless_item)) = [''jobless'', ''claims'']
   \<and> \<not> is_relevant ws_words (lower (content jobless_item)) keywords_list"
  by (simp add: rag_filter_data_def jobless_item_def keywords_list_def is_relevant_def
      lower_def lower_char_def upper_letters_def lower_letters_def startswith_def isspace_def)

text \<open>
  C10. \<open>filter_data\<close> of rufus.py is idempotent: filtering its own output changes nothing.
\<close>

theorem filter_data_idempotent: "filter_data nlp (filter_data nlp data) = filter_data nlp data"
  by (simp add: filter_data_def filter_loop_idem)

section \<open>Whitespace normalisation\<close>

lemma ws_words_dropWhile: "ws_words (dropWhile isspace s) = ws_words s"
  by (induction s) auto

lemma ws_words_all_space: "\<forall>c \<in> set sp. isspace c \<Longrightarrow> ws_words sp = []"
  by (induction sp) auto

lemma dropWhile_nonspace_spaces:
  "\<forall>c \<in> set sp. isspace c \<Longrightarrow> dropWhile (\<lambda>x. \<not> isspace x) sp = sp"
  by (cases sp) auto

lemma takeWhile_nonspace_spaces:
  "\<forall>c \<in> set sp. isspace c \<Longrightarrow> takeWhile (\<lambda>x. \<not> isspace x) sp = []"
  by (cases sp) auto

lemma ws_words_append_spaces:
  "\<forall>c \<in> set sp. isspace c \<Longrightarrow> ws_words (t @ sp) = ws_words t"
proof (induction t rule: ws_words.induct)
  case 1
  then show ?case by (simp add: ws_words_all_space)
next
  case (2 c cs)
  show ?case
  proof (cases "isspace c")
    case True
    then show ?thesis using 2 by simp
  next
    case False
    show ?thesis
    proof (cases "\<forall>x \<in> set cs. \<not> isspace x")
      case True
      then show ?thesis
        using False 2(3)
        by (simp add: takeWhile_append dropWhile_append dropWhile_nonspace_spaces
            takeWhile_nonspace_spaces ws_words_all_space takeWhile_eq_all_conv [THEN iffD2]
            dropWhile_eq_Nil_conv [THEN iffD2])
    next
      case nall: False
      have tw: "takeWhile (\<lambda>x. \<not> isspace x) (cs @ sp) = takeWhile (\<lambda>x. \<not> isspace x) cs"
        using nall by (auto simp: takeWhile_append)
      have dw: "dropWhile (\<lambda>x. \<not> isspace x) (cs @ sp) = dropWhile (\<lambda>x. \<not> isspace x) cs @ sp"
        using nall by (auto simp: dropWhile_append)
      show ?thesis
        using False 2(2) [OF False 2(3)] by (simp add: tw dw)
    qed
  qed
qed

lemma ws_words_strip: "ws_words (strip s) = ws_words s"
proof -
  let ?t = "dropWhile isspace s"
  have "?t = rev (dropWhile isspace (rev ?t)) @ rev (takeWhile isspace (rev ?t))"
    by (metis rev_append rev_rev_ident takeWhile_dropWhile_id)
  moreover have "\<forall>c \<in> set (rev (takeWhile isspace (rev ?t))). isspace c"
    by (auto dest: set_takeWhileD)
  ultimately have "ws_words ?t = ws_words (rev (dropWhile isspace (rev ?t)))"
    using ws_words_append_spaces by metis
  then show ?thesis
    by (simp add: strip_def ws_words_dropWhile)
qed

lemma join_sp_Cons_Cons: "join_sp ((c # w) # R) = c # join_sp (w # R)"
  by (cases R) auto

lemma ws_words_nonempty:
  "t \<noteq> [] \<Longrightarrow> \<not> isspace (last t) \<Longrightarrow> ws_words t \<noteq> []"
  by (induction t rule: ws_words.induct) (auto split: if_splits)

lemma re_sub_ws_words:
  "t = [] \<or> \<not> isspace (last t) \<Longrightarrow>
   re_sub_ws t = (if t \<noteq> [] \<and> isspace (hd t) then [CHR 0x20] else []) @ join_sp (ws_words t)"
proof (induction t rule: re_sub_ws.induct)
  case 1
  show ?case by simp
next
  case (2 c cs)
  show ?case
  proof (cases "isspace c")
    case True
    with 2(3) have ne: "cs \<noteq> []" by auto
    let ?d = "dropWhile isspace cs"
    have last_cs: "\<not> isspace (last cs)" using 2(3) ne by simp
    have dne: "?d \<noteq> []"
      using ne last_cs by (metis dropWhile_eq_Nil_conv last_in_set)
    have "last ?d = last cs"
      using dne by (metis last_appendR takeWhile_dropWhile_id)
    then have pre: "?d = [] \<or> \<not> isspace (last ?d)" using last_cs by simp
    have hd: "\<not> isspace (hd ?d)" using dne by (metis hd_dropWhile)
    have "re_sub_ws ?d = join_sp (ws_words ?d)"
      using 2(1) [OF True pre] hd by simp
    then show ?thesis
      using True by (simp add: ws_words_dropWhile)
  next
    case False
    show ?thesis
    proof (cases cs)
      case Nil
      then show ?thesis using False by simp
    next
      case (Cons c' cs')
      then have pre: "cs = [] \<or> \<not> isspace (last cs)" using 2(3) by simp
      have ih: "re_sub_ws cs =
          (if cs \<noteq> [] \<and> isspace (hd cs) then [CHR 0x20] else []) @ join_sp (ws_words cs)"
        using 2(2) [OF False pre] .
      show ?thesis
      proof (cases "isspace c'")
        case True
        have "ws_words cs \<noteq> []"
          using ws_words_nonempty [of cs] pre Cons by simp
        then obtain w R where wR: "ws_words cs = w # R" by (cases "ws_words cs") auto
        show ?thesis
          using False True Cons ih wR by simp
      next
        case nsp: False
        show ?thesis
          using False nsp Cons ih by (simp add: join_sp_Cons_Cons)
      qed
    qed
  qed
qed

lemma re_sub_ws_trimmed:
  "t = [] \<or> (\<not> isspace (last t) \<and> \<not> isspace (hd t)) \<Longrightarrow> re_sub_ws t = spec_normalize t"
  using re_sub_ws_words [of t] by (auto simp: spec_normalize_def)

lemma strip_ends:
  "strip s = [] \<or> (\<not> isspace (last (strip s)) \<and> \<not> isspace (hd (strip s)))"
proof (cases "strip s = []")
  case True
  then show ?thesis by simp
next
  case False
  let ?t = "dropWhile isspace s"
  let ?u = "dropWhile isspace (rev ?t)"
  have u: "?u \<noteq> []" using False by (simp add: strip_def)
  have l: "\<not> isspace (last (strip s))"
    using u by (simp add: strip_def last_rev hd_dropWhile)
  have tne: "?t \<noteq> []"
  proof
    assume "?t = []"
    then have "?u = []" by (simp only: rev.simps dropWhile.simps)
    with u show False by simp
  qed
  have "\<not> isspace (hd ?t)" using tne by (metis hd_dropWhile)
  moreover have "hd (strip s) = hd ?t"
  proof -
    have "last ?u = last (rev ?t)"
      using u by (metis last_appendR takeWhile_dropWhile_id)
    then show ?thesis using u tne by (simp add: strip_def hd_rev last_rev)
  qed
  ultimately show ?thesis using l by simp
qed

lemma concat_trimmed_ends:
  assumes "\<forall>s \<in> set ss. s \<noteq> [] \<and> \<not> isspace (last s) \<and> \<not> isspace (hd s)"
  shows "concat ss = [] \<or> (\<not> isspace (last (concat ss)) \<and> \<not> isspace (hd (concat ss)))"
  using assms
proof (induction ss)
  case Nil
  show ?case by simp
next
  case (Cons s ss)
  then show ?case by (cases "concat ss = []") auto
qed

lemma get_text_strip_ends:
  "get_text_strip el = []
   \<or> (\<not> isspace (last (get_text_strip el)) \<and> \<not> isspace (hd (get_text_strip el)))"
  unfolding get_text_strip_def
proof (rule concat_trimmed_ends, rule ballI)
  fix s assume "s \<in> set (filter (\<lambda>s. length s \<noteq> 0) (map strip el))"
  then obtain x where "s = strip x" "strip x \<noteq> []" by auto
  then show "s \<noteq> [] \<and> \<not> isspace (last s) \<and> \<not> isspace (hd s)"
    using strip_ends [of x] by simp
qed

lemma extract_loop_all_data:
  "all_data (self (extract_loop pr n els st)) =
     all_data (self st) @ map (\<lambda>el. structured_data pr n (get_text_strip el)) els"
  by (induction els arbitrary: st) (simp_all add: Let_def append_data_def emit_def)

text \<open>
  What the extractor computes: for every matched element, in order, it appends one record.
  Its content is the whitespace-normal form (trimmed, every run of whitespace one space) of
  the text that \<open>get_text(strip=True)\<close> returns, which is the element's text nodes, each
  stripped, joined without a separator. For an element with a single text node this is the
  whitespace-normal form of the element's text, and \<open>"Hiring   now\n\tfor  interns"\<close>
  extracts as \<open>"Hiring now for interns"\<close>.
\<close>

lemma extract_content_normalized:
  "all_data (self (extract_loop pr n els st)) =
     all_data (self st) @ map (\<lambda>el. structured_data pr n (get_text_strip el)) els
   \<and> content (structured_data pr n (get_text_strip el)) = spec_normalize (get_text_strip el)
   \<and> content (structured_data pr n (get_text_strip [s])) = spec_normalize (visible_text [s])
   \<and> content (structured_data pr n (get_text_strip [hiring_text])) = ''Hiring now for interns''"
proof -
  have a: "content (structured_data pr n (get_text_strip el)) = spec_normalize (get_text_strip el)"
    for el
    using re_sub_ws_trimmed [OF get_text_strip_ends [of el]] by (simp add: structured_data_def)
  have g: "get_text_strip [s] = strip s" for s
    by (simp add: get_text_strip_def)
  have b: "content (structured_data pr n (get_text_strip [s])) = spec_normalize (visible_text [s])"
    for s
    using a [of "[s]"] by (simp add: g spec_normalize_def ws_words_strip visible_text_def)
  have c: "spec_normalize (visible_text [hiring_text]) = ''Hiring now for interns''"
    by (simp add: spec_normalize_def visible_text_def hiring_text_def isspace_def)
  have d: "content (structured_data pr n (get_text_strip [hiring_text])) = ''Hiring now for interns''"
    using b [of hiring_text] c by simp
  show ?thesis
    using extract_loop_all_data [of pr n els st] a b d by simp
qed

text \<open>
  C9. The claim asks for the element's visible text, trimmed and with every run of
  whitespace collapsed to one space. The code gives something else for an element with more
  than one text node: \<open>get_text(strip=True)\<close> strips every text node on its own and joins
  them without a separator, so that the space between two nodes is lost and the words run
  together. \<open><p>Apply <a>here</a></p>\<close> is extracted as \<open>"Applyhere"\<close>, not \<open>"Apply here"\<close>,
  and \<open><p>Find a <b>job</b> today</p>\<close> as \<open>"Find ajobtoday"\<close>, which the relevance filter
  then drops for want of a token \<open>job\<close>, while it keeps the text the claim describes.
\<close>

theorem extract_joins_text_nodes:
  "content (structured_data ''hr'' 1 (get_text_strip apply_element)) = ''Applyhere''
   \<and> spec_normalize (visible_text apply_element) = ''Apply here''
   \<and> content (structured_data ''hr'' 1 (get_text_strip find_job_element)) = ''Find ajobtoday''
   \<and> spec_normalize (visible_text find_job_element) = ''Find a job today''
   \<and> filter_data ws_words [structured_data ''hr'' 1 (get_text_strip find_job_element)] = []
   \<and> filter_data ws_words
        [\<lparr>prompt = ''hr'', page = 1, content = spec_normalize (visible_text find_job_element)\<rparr>]
      = [\<lparr>prompt = ''hr'', page = 1, content = ''Find a job today''\<rparr>]"
  by (simp add: structured_data_def get_text_strip_def apply_element_def find_job_element_def
      strip_def spec_normalize_def visible_text_def isspace_def filter_data_def is_relevant_def
      keywords_list_def lower_def lower_char_def upper_letters_def lower_letters_def)

section \<open>What each step leaves unchanged\<close>

lemma same_data_refl: "same_data st st"
  by (simp add: same_data_def)

lemma same_data_trans: "same_data s1 s2 \<Longrightarrow> same_data s2 s3 \<Longrightarrow> same_data s1 s3"
  by (auto simp: same_data_def)

lemma added_refl: "added [] st st"
  by (simp add: added_def)

lemma added_same: "visited st' = visited st \<Longrightarrow> admitted st' = admitted st \<Longrightarrow> added [] st st'"
  by (simp add: added_def)

lemma added_trans:
  assumes "added n1 s1 s2" and "added n2 s2 s3"
  shows "added (n1 @ n2) s1 s3"
proof -
  have v2: "visited s2 = visited s1 |\<union>| fset_of_list n1"
    using assms(1) by (simp add: added_def)
  have d: "\<forall>x \<in> set n2. x |\<notin>| visited s1 \<and> x \<notin> set n1"
    using assms(2) v2 by (auto simp: added_def fset_of_list_elem)
  have "distinct (n1 @ n2)"
    using assms d by (auto simp: added_def)
  moreover have "\<forall>x \<in> set (n1 @ n2). x |\<notin>| visited s1"
    using assms(1) d by (auto simp: added_def)
  moreover have "visited s3 = visited s1 |\<union>| fset_of_list (n1 @ n2)"
    using assms(2) v2 by (auto simp: added_def fset_of_list_elem)
  moreover have "admitted s3 = admitted s1 @ n1 @ n2"
    using assms by (simp add: added_def)
  ultimately show ?thesis by (simp add: added_def)
qed

lemma ext_refl: "ext N st st"
  using added_refl [of st] by (auto simp: ext_def)

lemma ext_trans:
  assumes "ext N s1 s2" and "ext N s2 s3"
  shows "ext N s1 s3"
proof -
  obtain n1 n2 where "added n1 s1 s2" "added n2 s2 s3"
    using assms by (auto simp: ext_def)
  then have "\<exists>new. added new s1 s3" using added_trans by blast
  then show ?thesis using assms by (auto simp: ext_def)
qed

lemma same_data_ext: "same_data st st' \<Longrightarrow> ext N st st'"
  using added_same [of st' st] by (auto simp: same_data_def ext_def)

lemma emit_same: "same_data st (emit ev st)"
  by (simp add: same_data_def emit_def)

lemma call_same: "call ev f st = (r, st') \<Longrightarrow> same_data st st'"
  by (auto simp: call_def same_data_def split: prod.splits)

lemma settle_attempt_same: "settle_attempt B p u t st = (r, st') \<Longrightarrow> same_data st st'"
  unfolding settle_attempt_def
  by (auto simp: call_def same_data_def split: prod.splits res.splits)

lemma navigate_attempts_same: "same_data st (navigate_attempts B p u t as st)"
proof (induction as arbitrary: st)
  case Nil
  show ?case by (simp add: emit_same)
next
  case (Cons attempt rest)
  obtain r s where rs: "settle_attempt B p u t st = (r, s)" by (cases "settle_attempt B p u t st")
  have s: "same_data st s" using settle_attempt_same [OF rs] .
  show ?case
  proof (cases r)
    case (Ok x)
    then show ?thesis using rs s by simp
  next
    case Timeout
    let ?s' = "emit (Sleep (2 ^ attempt)) (emit (Log (NavTimeoutRetry u (attempt + 1))) s)"
    have "same_data s ?s'"
      by (meson emit_same same_data_trans)
    then have "same_data st (navigate_attempts B p u t rest ?s')"
      using s Cons.IH [of ?s'] by (meson same_data_trans)
    then show ?thesis using rs Timeout by simp
  next
    case Error
    then show ?thesis
      using rs same_data_trans [OF s emit_same [of s "Log NavUnexpected"]] by simp
  qed
qed

lemma navigate_to_url_same: "same_data st (navigate_to_url B p u t st)"
  by (simp add: navigate_to_url_def navigate_attempts_same)

lemma extract_loop_ext:
  "visited (extract_loop pr n els st) = visited st
   \<and> prefix (all_data (self st)) (all_data (self (extract_loop pr n els st)))
   \<and> prefix (trace st) (trace (extract_loop pr n els st))
   \<and> max_retries (self (extract_loop pr n els st)) = max_retries (self st)
   \<and> admitted (extract_loop pr n els st) = admitted st"
proof (induction els arbitrary: st)
  case Nil
  show ?case by simp
next
  case (Cons el els)
  let ?s = "append_data (structured_data pr n (get_text_strip el))
              (emit (Log (Extracted (get_text_strip el))) st)"
  have a: "visited ?s = visited st" "prefix (all_data (self st)) (all_data (self ?s))"
    "prefix (trace st) (trace ?s)" "max_retries (self ?s) = max_retries (self st)"
    "admitted ?s = admitted st"
    by (simp_all add: append_data_def emit_def)
  show ?case
    using Cons.IH [of ?s] a by (auto simp: Let_def intro: prefix_order.trans)
qed

lemma extract_loop_visited: "visited (extract_loop pr n els s) = visited s"
  using extract_loop_ext [of pr n els s] by simp

lemma extract_loop_max_retries:
  "max_retries (self (extract_loop pr n els s)) = max_retries (self s)"
  using extract_loop_ext [of pr n els s] by simp

lemma extract_loop_trace_prefix:
  "prefix xs (trace s) \<Longrightarrow> prefix xs (trace (extract_loop pr n els s))"
  using extract_loop_ext [of pr n els s] by (auto intro: prefix_order.trans)

lemma extract_loop_data_prefix:
  "prefix xs (all_data (self s)) \<Longrightarrow> prefix xs (all_data (self (extract_loop pr n els s)))"
  using extract_loop_ext [of pr n els s] by (auto intro: prefix_order.trans)

lemma extract_loop_admitted: "admitted (extract_loop pr n els s) = admitted s"
  using extract_loop_ext [of pr n els s] by simp

lemma extract_ext:
  assumes "extract_data_from_page B p pr css n st = (r, st')"
  shows "visited st' = visited st \<and> ext N st st'"
proof -
  have "visited st' = visited st \<and> admitted st' = admitted st
      \<and> prefix (all_data (self st)) (all_data (self st'))
      \<and> prefix (trace st) (trace st')
      \<and> max_retries (self st') = max_retries (self st)"
    using assms unfolding extract_data_from_page_def
    by (auto simp: call_def extract_loop_visited extract_loop_max_retries extract_loop_admitted
        split: prod.splits res.splits option.splits
        intro!: extract_loop_trace_prefix extract_loop_data_prefix)
  then show ?thesis
    using added_same [of st' st] by (auto simp: ext_def)
qed



lemma finally_close_same: "finally_close B np (r, s) = (r', s') \<Longrightarrow> same_data s s'"
  unfolding finally_close_def
  by (auto split: prod.splits res.splits dest!: call_same)

lemma handle_link_same: "same_data s (handle_link (r, s))"
  unfolding handle_link_def
  by (auto split: res.splits simp: emit_same same_data_refl)

section \<open>The crawl only adds to the visited set, the accumulator and the trace\<close>

lemma close_handle_same: "same_data s (handle_link (finally_close B np (r, s)))"
proof -
  obtain r' s' where f: "finally_close B np (r, s) = (r', s')"
    by (cases "finally_close B np (r, s)")
  show ?thesis
    using same_data_trans [OF finally_close_same [OF f] handle_link_same [of s' r']] f by simp
qed

lemma visit_link_ext:
  assumes IH: "\<And>p u s r s'. crawl_links d B a p u s = Some (r, s') \<Longrightarrow> ext N s s'"
    and v: "visit_link d B a p l st = Some st'"
  shows "ext N st st'"
proof -
  obtain r1 s1 where c1: "call (GetHref l) (get_attribute B l) st = (r1, s1)"
    by (cases "call (GetHref l) (get_attribute B l) st")
  have e1: "ext N st s1" using call_same [OF c1] by (rule same_data_ext)
  have h: "ext N s (handle_link (r, s))" for r and s :: "'a state"
    using handle_link_same [of s r] by (rule same_data_ext)
  have ch: "ext N s (handle_link (finally_close B np (r, s)))" for np r and s :: "'a state"
    using close_handle_same [of s B np r] by (rule same_data_ext)
  show ?thesis
  proof (cases r1)
    case Timeout
    then show ?thesis using v c1 ext_trans [OF e1 h] by auto
  next
    case Error
    then show ?thesis using v c1 ext_trans [OF e1 h] by auto
  next
    case (Ok href)
    show ?thesis
    proof (cases "wanted href (visited s1)")
      case None
      then show ?thesis using v c1 Ok e1 by auto
    next
      case (Some next_url)
      obtain r2 s2 where c2: "call NewPage (new_page B p) s1 = (r2, s2)"
        by (cases "call NewPage (new_page B p) s1")
      have e2: "ext N st s2"
        using ext_trans [OF e1 same_data_ext [OF call_same [OF c2]]] .
      show ?thesis
      proof (cases r2)
        case Timeout
        then show ?thesis using v c1 Ok Some c2 ext_trans [OF e2 h] by auto
      next
        case Error
        then show ?thesis using v c1 Ok Some c2 ext_trans [OF e2 h] by auto
      next
        case np: (Ok np)
        obtain r3 s3 where c3:
          "call (Goto np next_url) (goto B np next_url (timeout a)) s2 = (r3, s3)"
          by (cases "call (Goto np next_url) (goto B np next_url (timeout a)) s2")
        have e3: "ext N st s3"
          using ext_trans [OF e2 same_data_ext [OF call_same [OF c3]]] .
        show ?thesis
        proof (cases r3)
          case Timeout
          then show ?thesis using v c1 Ok Some c2 np c3 ext_trans [OF e3 ch] by auto
        next
          case Error
          then show ?thesis using v c1 Ok Some c2 np c3 ext_trans [OF e3 ch] by auto
        next
          case ok3: (Ok x)
          show ?thesis
          proof (cases "crawl_links d B a np next_url s3")
            case None
            then show ?thesis using v c1 Ok Some c2 np c3 ok3 by auto
          next
            case body: (Some body)
            obtain rb sb where b: "body = (rb, sb)" by (cases body)
            have "ext N s3 sb" using IH body b by simp
            then have "ext N st (handle_link (finally_close B np (rb, sb)))"
              using e3 ch ext_trans by blast
            then show ?thesis using v c1 Ok Some c2 np c3 ok3 body b by auto
          qed
        qed
      qed
    qed
  qed
qed

lemma crawl_loop_ext:
  assumes IH: "\<And>p u s r s'. crawl_links d B a p u s = Some (r, s') \<Longrightarrow> ext N s s'"
  shows "crawl_loop d B a p ls st = Some st' \<Longrightarrow> ext N st st'"
proof (induction ls arbitrary: st)
  case Nil
  then show ?case by (simp add: ext_refl)
next
  case (Cons l ls)
  show ?case
  proof (cases "visit_link d B a p l st")
    case None
    then show ?thesis using Cons.prems by simp
  next
    case (Some s)
    have "ext N st s" using visit_link_ext [OF IH Some] .
    moreover have "ext N s st'" using Cons.IH [of s] Cons.prems Some by simp
    ultimately show ?thesis by (rule ext_trans)
  qed
qed

lemma admit_ext:
  assumes "\<not> (pages a \<le> int (fcard (visited st)) \<or> u |\<in>| visited st)"
  shows "ext (pages a) st (st\<lparr>visited := finsert u (visited st), admitted := admitted st @ [u]\<rparr>)"
proof -
  have "added [u] st (st\<lparr>visited := finsert u (visited st), admitted := admitted st @ [u]\<rparr>)"
    using assms by (auto simp: added_def)
  then show ?thesis
    using assms by (auto simp: ext_def fcard_finsert_disjoint)
qed

lemma crawl_links_ext:
  "crawl_links d B a p u st = Some (r, st') \<Longrightarrow> ext (pages a) st st'"
proof (induction d arbitrary: p u st r st')
  case 0
  then show ?case by simp
next
  case (Suc d)
  show ?case
  proof (cases "pages a \<le> int (fcard (visited st)) \<or> u |\<in>| visited st")
    case True
    then show ?thesis using Suc.prems by (auto simp: ext_refl)
  next
    case False
    let ?s1 = "st\<lparr>visited := finsert u (visited st), admitted := admitted st @ [u]\<rparr>"
    let ?s2 = "navigate_to_url B p u (timeout a) ?s1"
    have e2: "ext (pages a) st ?s2"
      using ext_trans [OF admit_ext [OF False] same_data_ext [OF navigate_to_url_same]] .
    obtain r3 s3 where x: "extract_data_from_page B p (prompt_arg a) (css_selector a)
        (int (fcard (visited ?s2))) ?s2 = (r3, s3)"
      by (cases "extract_data_from_page B p (prompt_arg a) (css_selector a)
        (int (fcard (visited ?s2))) ?s2")
    have e3: "ext (pages a) st s3"
      using ext_trans [OF e2] extract_ext [OF x] by blast
    have em: "ext (pages a) st (emit ev s3)" for ev
      using ext_trans [OF e3 same_data_ext [OF emit_same]] .
    show ?thesis
    proof (cases r3)
      case Timeout
      then show ?thesis using Suc.prems False x em by (auto simp: Let_def)
    next
      case Error
      then show ?thesis using Suc.prems False x em by (auto simp: Let_def)
    next
      case (Ok y)
      obtain r4 s4 where q: "call (QueryLinks p) (query_selector_all B p) s3 = (r4, s4)"
        by (cases "call (QueryLinks p) (query_selector_all B p) s3")
      have e4: "ext (pages a) st s4"
        using ext_trans [OF e3 same_data_ext [OF call_same [OF q]]] .
      show ?thesis
      proof (cases r4)
        case Timeout
        then show ?thesis using Suc.prems False x Ok q e4 by (auto simp: Let_def)
      next
        case Error
        then show ?thesis using Suc.prems False x Ok q e4 by (auto simp: Let_def)
      next
        case links: (Ok links)
        show ?thesis
        proof (cases "crawl_loop d B a p links s4")
          case None
          then show ?thesis using Suc.prems False x Ok q links by (auto simp: Let_def)
        next
          case (Some s5)
          have "ext (pages a) s4 s5"
            using crawl_loop_ext [OF Suc.IH Some] .
          then have "ext (pages a) st s5" using e4 ext_trans by blast
          then show ?thesis using Suc.prems False x Ok q links Some by (auto simp: Let_def)
        qed
      qed
    qed
  qed
qed

section \<open>The same for the crawl of rufus_rag.py\<close>

lemma get_link_href_same: "get_link_href B l st = (h, s) \<Longrightarrow> same_data st s"
  unfolding get_link_href_def
  by (auto simp: call_def emit_def same_data_def split: prod.splits res.splits)

lemma retry_handler_same: "same_data s (retry_handler attempt next_url r s)"
  unfolding retry_handler_def
  by (auto simp: emit_def same_data_def split: res.splits)

lemma rag_try_extract_same: "same_data s (rag_try_extract (r, s))"
  unfolding rag_try_extract_def
  by (auto simp: emit_def same_data_def split: res.splits)

lemma rag_retry_navigation_ext:
  assumes IH: "\<And>p u s r s'. rag_crawl_links d B a p u s = Some (r, s') \<Longrightarrow> ext N s s'"
  shows "rag_retry_navigation d B a p next_url as st = Some st' \<Longrightarrow> ext N st st'"
proof (induction as arbitrary: st)
  case Nil
  then show ?case by (simp add: ext_refl)
next
  case (Cons attempt rest)
  have again: "ext N st st'"
    if "ext N st s" and "rag_retry_navigation d B a p next_url rest
          (retry_handler attempt next_url r s) = Some st'" for r s
  proof -
    have "ext N s (retry_handler attempt next_url r s)"
      using retry_handler_same by (rule same_data_ext)
    then show ?thesis
      using that Cons.IH [of "retry_handler attempt next_url r s"] ext_trans by blast
  qed
  obtain r1 s1 where c1: "call (Goto p next_url) (goto B p next_url (timeout a)) st = (r1, s1)"
    by (cases "call (Goto p next_url) (goto B p next_url (timeout a)) st")
  have e1: "ext N st s1" using call_same [OF c1] by (rule same_data_ext)
  show ?case
  proof (cases r1)
    case Timeout
    then show ?thesis using Cons.prems c1 again [OF e1] by simp
  next
    case Error
    then show ?thesis using Cons.prems c1 again [OF e1] by simp
  next
    case (Ok x)
    obtain r2 s2 where c2: "call (WaitLoadState p) (wait_for_load_state B p) s1 = (r2, s2)"
      by (cases "call (WaitLoadState p) (wait_for_load_state B p) s1")
    have e2: "ext N st s2"
      using ext_trans [OF e1 same_data_ext [OF call_same [OF c2]]] .
    show ?thesis
    proof (cases r2)
      case Timeout
      then show ?thesis using Cons.prems c1 Ok c2 again [OF e2] by simp
    next
      case Error
      then show ?thesis using Cons.prems c1 Ok c2 again [OF e2] by simp
    next
      case ok2: (Ok y)
      show ?thesis
      proof (cases "rag_crawl_links d B a p next_url s2")
        case None
        then show ?thesis using Cons.prems c1 Ok c2 ok2 by simp
      next
        case (Some body)
        obtain r3 s3 where b: "body = (r3, s3)" by (cases body)
        have e3: "ext N st s3" using ext_trans [OF e2 IH] Some b by simp
        show ?thesis
        proof (cases r3)
          case ok3: (Ok z)
          then show ?thesis using Cons.prems c1 Ok c2 ok2 Some b e3 by simp
        next
          case Timeout
          then show ?thesis using Cons.prems c1 Ok c2 ok2 Some b again [OF e3] by simp
        next
          case Error
          then show ?thesis using Cons.prems c1 Ok c2 ok2 Some b again [OF e3] by simp
        qed
      qed
    qed
  qed
qed

lemma rag_crawl_loop_ext:
  assumes IH: "\<And>p u s r s'. rag_crawl_links d B a p u s = Some (r, s') \<Longrightarrow> ext N s s'"
  shows "rag_crawl_loop d B a p ls st = Some st' \<Longrightarrow> ext N st st'"
proof (induction ls arbitrary: st)
  case Nil
  then show ?case by (simp add: ext_refl)
next
  case (Cons l ls)
  obtain href s1 where g: "get_link_href B l st = (href, s1)"
    by (cases "get_link_href B l st")
  have e1: "ext N st s1" using get_link_href_same [OF g] by (rule same_data_ext)
  show ?case
  proof (cases "wanted href (visited s1)")
    case None
    then have "ext N s1 st'" using Cons.IH [of s1] Cons.prems g by simp
    then show ?thesis using e1 ext_trans by blast
  next
    case (Some next_url)
    show ?thesis
    proof (cases "rag_retry_navigation d B a p next_url [0..<3] s1")
      case None
      then show ?thesis using Cons.prems g Some by simp
    next
      case s2: (Some s2)
      have "ext N s1 s2" using rag_retry_navigation_ext [OF IH s2] .
      moreover have "ext N s2 st'" using Cons.IH [of s2] Cons.prems g Some s2 by simp
      ultimately show ?thesis using e1 ext_trans by blast
    qed
  qed
qed

lemma rag_crawl_links_ext:
  "rag_crawl_links d B a p u st = Some (r, st') \<Longrightarrow> ext (pages a) st st'"
proof (induction d arbitrary: p u st r st')
  case 0
  then show ?case by simp
next
  case (Suc d)
  show ?case
  proof (cases "pages a \<le> int (fcard (visited st)) \<or> u |\<in>| visited st")
    case True
    then show ?thesis using Suc.prems by (auto simp: ext_refl)
  next
    case False
    let ?s1 = "st\<lparr>visited := finsert u (visited st), admitted := admitted st @ [u]\<rparr>"
    let ?s2 = "navigate_to_url B p u (timeout a) ?s1"
    let ?x = "extract_data_from_page B p (prompt_arg a) (css_selector a)
        (int (fcard (visited ?s2))) ?s2"
    let ?s3 = "rag_try_extract ?x"
    have e2: "ext (pages a) st ?s2"
      using ext_trans [OF admit_ext [OF False] same_data_ext [OF navigate_to_url_same]] .
    have "ext (pages a) ?s2 (snd ?x)" using extract_ext [of B p _ _ _ ?s2 "fst ?x" "snd ?x"] by simp
    moreover have "ext (pages a) (snd ?x) ?s3"
      using rag_try_extract_same [of "snd ?x" "fst ?x"] by (simp add: same_data_ext)
    ultimately have e3: "ext (pages a) st ?s3" using e2 ext_trans by blast
    obtain r4 s4 where q: "call (QueryLinks p) (query_selector_all B p) ?s3 = (r4, s4)"
      by (cases "call (QueryLinks p) (query_selector_all B p) ?s3")
    have e4: "ext (pages a) st s4"
      using ext_trans [OF e3 same_data_ext [OF call_same [OF q]]] .
    show ?thesis
    proof (cases r4)
      case Timeout
      then show ?thesis using Suc.prems False q e4 by (auto simp: Let_def)
    next
      case Error
      then show ?thesis using Suc.prems False q e4 by (auto simp: Let_def)
    next
      case links: (Ok links)
      show ?thesis
      proof (cases "rag_crawl_loop d B a p links s4")
        case None
        then show ?thesis using Suc.prems False q links by (auto simp: Let_def)
      next
        case (Some s5)
        have "ext (pages a) s4 s5" using rag_crawl_loop_ext [OF Suc.IH Some] .
        then have "ext (pages a) st s5" using e4 ext_trans by blast
        then show ?thesis using Suc.prems False q links Some by (auto simp: Let_def)
      qed
    qed
  qed
qed

section \<open>The recursion is no deeper than the budget allows\<close>

lemma same_data_remaining: "same_data st st' \<Longrightarrow> remaining a st' = remaining a st"
  by (simp add: same_data_def remaining_def)

lemma ext_remaining: "ext N st st' \<Longrightarrow> remaining a st' \<le> remaining a st"
  using fcard_mono [of "visited st" "visited st'"] by (auto simp: ext_def remaining_def)

lemma visit_link_total:
  assumes T: "\<And>p u s. remaining a s < d \<Longrightarrow> crawl_links d B a p u s \<noteq> None"
    and r: "remaining a st < d"
  shows "visit_link d B a p l st \<noteq> None"
proof -
  have "crawl_links d B a np next_url s3 \<noteq> None"
    if "same_data st s1" "same_data s1 s2" "same_data s2 s3" for np next_url s1 s2 s3
    using T [of s3 np next_url] r that by (simp add: same_data_def remaining_def)
  then show ?thesis
    by (auto split: prod.splits res.splits option.splits dest!: call_same)
      (metis option.distinct(1))
qed

lemma crawl_loop_total:
  assumes T: "\<And>p u s. remaining a s < d \<Longrightarrow> crawl_links d B a p u s \<noteq> None"
  shows "remaining a st < d \<Longrightarrow> crawl_loop d B a p ls st \<noteq> None"
proof (induction ls arbitrary: st)
  case Nil
  show ?case by simp
next
  case (Cons l ls)
  obtain s where s: "visit_link d B a p l st = Some s"
    using visit_link_total [OF T Cons.prems, of p l] by auto
  have "ext (pages a) st s"
    using visit_link_ext [OF crawl_links_ext s] .
  then have "remaining a s < d"
    using ext_remaining [of "pages a" st s a] Cons.prems by simp
  then show ?case using Cons.IH [of s] s by simp
qed

lemma crawl_links_total:
  "remaining a st < d \<Longrightarrow> crawl_links d B a p u st \<noteq> None"
proof (induction d arbitrary: p u st)
  case 0
  then show ?case by simp
next
  case (Suc d)
  show ?case
  proof (cases "pages a \<le> int (fcard (visited st)) \<or> u |\<in>| visited st")
    case True
    then show ?thesis by auto
  next
    case False
    let ?s1 = "st\<lparr>visited := finsert u (visited st), admitted := admitted st @ [u]\<rparr>"
    let ?s2 = "navigate_to_url B p u (timeout a) ?s1"
    have r1: "remaining a ?s1 < d"
      using False Suc.prems by (auto simp: remaining_def fcard_finsert_disjoint)
    have r2: "remaining a ?s2 < d"
      using r1 same_data_remaining [OF navigate_to_url_same, of a B p u "timeout a" ?s1] by simp
    have loop: "crawl_loop d B a p links s4 \<noteq> None"
      if "extract_data_from_page B p (prompt_arg a) (css_selector a)
            (int (fcard (visited ?s2))) ?s2 = (r3, s3)"
        and "call (QueryLinks p) (query_selector_all B p) s3 = (r4, s4)"
      for r3 s3 r4 s4 links
    proof -
      have "visited s3 = visited ?s2" using extract_ext [OF that(1)] by simp
      moreover have "visited s4 = visited s3"
        using call_same [OF that(2)] by (simp add: same_data_def)
      ultimately have r4: "remaining a s4 < d" using r2 by (simp add: remaining_def)
      have T: "\<And>p u s. remaining a s < d \<Longrightarrow> crawl_links d B a p u s \<noteq> None"
        using Suc.IH by blast
      show ?thesis using crawl_loop_total [OF T r4] .
    qed
    show ?thesis
      using False loop
      by (auto simp: Let_def split: prod.splits res.splits option.splits)
        (metis option.distinct(1))
  qed
qed

section \<open>Termination, the budget and failures of a page\<close>

text \<open>
  C8. For every browser, and so for every link graph, cyclic or not, the crawl comes back:
  a depth of one more than the number of addresses the budget still allows is never
  exceeded, because every call that goes deeper has first added a new address to the
  visited set. An address that is already in the visited set is rejected at once.
\<close>

theorem crawl_terminates:
  "(remaining a st < d \<longrightarrow> (\<exists>r st'. crawl_links d B a p u st = Some (r, st')))
   \<and> (u |\<in>| visited st \<longrightarrow> crawl_links (Suc d) B a p u st = Some (Ok (), st))"
  using crawl_links_total [of a st d B p u] by auto

theorem crawl_terminates_witness:
  "remaining (args_with 3) started < 4
   \<and> (\<exists>r st'. crawl_links 4 (fake_browser loop_site) (args_with 3) 0 ''http://a'' started
        = Some (r, st'))
   \<and> ''http://a'' |\<in>| visited (started\<lparr>visited := {|''http://a''|}\<rparr>)
   \<and> crawl_links (Suc 0) (fake_browser loop_site) (args_with 3) 0 ''http://a''
        (started\<lparr>visited := {|''http://a''|}\<rparr>)
      = Some (Ok (), started\<lparr>visited := {|''http://a''|}\<rparr>)"
proof -
  have r: "remaining (args_with 3) started < 4"
    by (simp add: remaining_def args_with_def started_def fcard_fempty)
  have v: "''http://a'' |\<in>| visited (started\<lparr>visited := {|''http://a''|}\<rparr>)"
    by simp
  show ?thesis
    using r v
      crawl_terminates [where a = "args_with 3" and st = started and d = 4
        and B = "fake_browser loop_site" and p = 0 and u = "''http://a''"]
      crawl_terminates [where a = "args_with 3"
        and st = "started\<lparr>visited := {|''http://a''|}\<rparr>" and d = 0
        and B = "fake_browser loop_site" and p = 0 and u = "''http://a''"]
    by blast
qed

lemma fcard_union_new:
  "distinct xs \<Longrightarrow> \<forall>x \<in> set xs. x |\<notin>| A \<Longrightarrow> fcard (A |\<union>| fset_of_list xs) = fcard A + length xs"
proof (induction xs)
  case Nil
  show ?case by simp
next
  case (Cons x xs)
  have "x |\<notin>| A |\<union>| fset_of_list xs"
    using Cons.prems by (auto simp: fset_of_list_elem)
  then have "fcard (finsert x (A |\<union>| fset_of_list xs)) = Suc (fcard (A |\<union>| fset_of_list xs))"
    by (rule fcard_finsert_disjoint)
  then show ?case using Cons by simp
qed

lemma added_bounds:
  assumes a: "added new st st'" and b: "int (fcard (visited st')) \<le> N"
  shows "(\<forall>i \<le> length new. int (fcard (visited_after i new st)) \<le> N)
     \<and> (\<forall>i < length new. int (fcard (visited_after i new st)) < N)"
proof -
  have c: "fcard (visited_after i new st) = fcard (visited st) + i" if "i \<le> length new" for i
  proof -
    have "distinct (take i new)" using a by (simp add: added_def)
    moreover have "\<forall>x \<in> set (take i new). x |\<notin>| visited st"
      using a by (auto simp: added_def dest: in_set_takeD)
    ultimately show ?thesis
      using fcard_union_new [of "take i new" "visited st"] that
      by (simp add: visited_after_def)
  qed
  have "visited st' = visited_after (length new) new st"
    using a by (simp add: added_def visited_after_def)
  then have "int (fcard (visited st) + length new) \<le> N"
    using b c [of "length new"] by simp
  then show ?thesis using c by auto
qed

text \<open>
  C3. In rufus.py and in rufus_rag.py alike, take a crawl with page budget \<open>N\<close> that starts
  with at most \<open>N\<close> visited addresses and calls \<open>visited.add\<close> with the addresses \<open>new\<close>.
  No address is added twice, nor one that the set held before. At every point of the
  crawl the set is \<open>visited_after i new\<close> for the number \<open>i\<close> of calls made so far, and it
  holds at most \<open>N\<close> addresses; at each call of \<open>visited.add\<close> it holds fewer than \<open>N\<close>,
  the budget check coming first. \<open>_crawl_links\<close> makes this check before its own
  navigation: with the budget used up it returns at once and does nothing.
\<close>

theorem visited_within_budget:
  "((crawl_links d B a p u st = Some (r, st') \<or> rag_crawl_links d B a p u st = Some (r, st'))
      \<and> int (fcard (visited st)) \<le> pages a
      \<longrightarrow> (\<exists>new. added new st st'
            \<and> (\<forall>i \<le> length new. int (fcard (visited_after i new st)) \<le> pages a)
            \<and> (\<forall>i < length new. int (fcard (visited_after i new st)) < pages a)))
   \<and> (pages a \<le> int (fcard (visited st))
      \<longrightarrow> crawl_links (Suc d) B a p u st = Some (Ok (), st)
        \<and> rag_crawl_links (Suc d) B a p u st = Some (Ok (), st))"
proof -
  have "\<exists>new. added new st st'
            \<and> (\<forall>i \<le> length new. int (fcard (visited_after i new st)) \<le> pages a)
            \<and> (\<forall>i < length new. int (fcard (visited_after i new st)) < pages a)"
    if e: "ext (pages a) st st'" and b: "int (fcard (visited st)) \<le> pages a"
  proof -
    obtain new where n: "added new st st'" using e by (auto simp: ext_def)
    have "int (fcard (visited st')) \<le> pages a" using e b by (simp add: ext_def)
    then show ?thesis using added_bounds [OF n] n by blast
  qed
  then show ?thesis
    using crawl_links_ext [of d B a p u st r st'] rag_crawl_links_ext [of d B a p u st r st']
    by auto
qed

theorem visited_within_budget_witness:
  "(\<exists>r st' new. crawl_links 3 (fake_browser two_page_site) (args_with 2) 0 ''http://a'' started
        = Some (r, st')
      \<and> int (fcard (visited started)) \<le> pages (args_with 2)
      \<and> added new started st'
      \<and> (\<forall>i \<le> length new. int (fcard (visited_after i new started)) \<le> pages (args_with 2))
      \<and> (\<forall>i < length new. int (fcard (visited_after i new started)) < pages (args_with 2)))
   \<and> (\<exists>r st' new.
        rag_crawl_links 3 (fake_browser two_page_site) (args_with 2) 0 ''http://a'' started
        = Some (r, st')
      \<and> added new started st'
      \<and> (\<forall>i \<le> length new. int (fcard (visited_after i new started)) \<le> pages (args_with 2)))
   \<and> pages (args_with 0) \<le> int (fcard (visited started))
   \<and> crawl_links (Suc 0) (fake_browser two_page_site) (args_with 0) 0 ''http://a'' started
      = Some (Ok (), started)"
proof -
  have "remaining (args_with 2) started < 3"
    by (simp add: remaining_def args_with_def started_def fcard_fempty)
  then obtain r st' where
    c: "crawl_links 3 (fake_browser two_page_site) (args_with 2) 0 ''http://a'' started
          = Some (r, st')"
    using crawl_links_total [of "args_with 2" started 3] by fastforce
  have "rag_crawl_links 3 (fake_browser two_page_site) (args_with 2) 0 ''http://a'' started
      \<noteq> None"
    by code_simp
  then obtain r2 st2 where
    c2: "rag_crawl_links 3 (fake_browser two_page_site) (args_with 2) 0 ''http://a'' started
          = Some (r2, st2)"
    by fastforce
  have b: "int (fcard (visited started)) \<le> pages (args_with 2)"
    by (simp add: args_with_def started_def fcard_fempty)
  have z: "pages (args_with 0) \<le> int (fcard (visited started))"
    by (simp add: args_with_def started_def fcard_fempty)
  show ?thesis
    using c c2 b z
      visited_within_budget [where d = 3 and B = "fake_browser two_page_site"
        and a = "args_with 2" and p = 0 and u = "''http://a''" and st = started
        and r = r and st' = st']
      visited_within_budget [where d = 3 and B = "fake_browser two_page_site"
        and a = "args_with 2" and p = 0 and u = "''http://a''" and st = started
        and r = r2 and st' = st2]
      visited_within_budget [where d = 0 and B = "fake_browser two_page_site"
        and a = "args_with 0" and p = 0 and u = "''http://a''" and st = started]
    by blast
qed

text \<open>
  C3, as stated, fails in its last part: a discovered link is loaded in a fresh page
  (\<open>new_page.goto\<close>) before the recursive call checks the budget. With a budget of one
  page, the second address is navigated to although the visited set is full, and it is
  never admitted.
\<close>

theorem link_loaded_before_budget_check:
  "gotos (run_trace budget_one_run) = [''http://a'', ''http://b'']
   \<and> run_visited budget_one_run = {|''http://a''|}
   \<and> pages (args_with 1) = 1"
  unfolding budget_one_run_def by code_simp





section \<open>The retry schedule of the navigator\<close>

lemma goto_sleep_append: "goto_sleep (xs @ ys) = goto_sleep xs @ goto_sleep ys"
  by (simp add: goto_sleep_def)

lemma settle_attempt_events:
  assumes "settle_attempt B p u t st = (r, s)"
  shows "\<exists>evs. trace s = trace st @ evs \<and> goto_sleep evs = [Goto p u] \<and> evs \<noteq> []
     \<and> (r = Ok () \<longrightarrow> last evs = Dwell p)"
  using assms unfolding settle_attempt_def
  by (auto simp: call_def goto_sleep_def is_goto_or_sleep_def split: prod.splits res.splits)

lemma settle_attempt_world:
  assumes "settle_attempt B p u t st = (r, s)"
  shows "attempt_on B p u t (world st) = (r, world s)"
  using assms unfolding settle_attempt_def attempt_on_def
  by (auto simp: call_def split: prod.splits res.splits)

lemma timeouts_in_a_row_le: "timeouts_in_a_row B p u t n w \<le> n"
  by (induction n arbitrary: w) (auto split: prod.splits res.splits)

lemma navigate_attempts_events:
  "\<exists>evs. trace (navigate_attempts B p u t as st) = trace st @ evs \<and> evs \<noteq> []
     \<and> goto_sleep evs =
         concat (map (\<lambda>attempt. [Goto p u, Sleep (2 ^ attempt)])
                   (take (timeouts_in_a_row B p u t (length as) (world st)) as))
         @ (if timeouts_in_a_row B p u t (length as) (world st) = length as then []
            else [Goto p u])
     \<and> (last evs = Log NavFailed
          \<longleftrightarrow> timeouts_in_a_row B p u t (length as) (world st) = length as)
     \<and> last evs = (case nav_result B p u t (length as) (world st) of
                     Ok x \<Rightarrow> Dwell p
                   | Timeout \<Rightarrow> Log NavFailed
                   | Error \<Rightarrow> Log NavUnexpected)"
proof (induction as arbitrary: st)
  case Nil
  show ?case by (simp add: emit_def goto_sleep_def is_goto_or_sleep_def)
next
  case (Cons attempt rest)
  obtain r s where rs: "settle_attempt B p u t st = (r, s)" by (cases "settle_attempt B p u t st")
  have w: "attempt_on B p u t (world st) = (r, world s)"
    using settle_attempt_world [OF rs] .
  obtain evs1 where e1: "trace s = trace st @ evs1" "goto_sleep evs1 = [Goto p u]" "evs1 \<noteq> []"
    "r = Ok () \<longrightarrow> last evs1 = Dwell p"
    using settle_attempt_events [OF rs] by blast
  show ?case
  proof (cases r)
    case (Ok x)
    then have "trace (navigate_attempts B p u t (attempt # rest) st) = trace st @ evs1"
      "last evs1 = Dwell p"
      using rs e1 by auto
    then show ?thesis
      using e1 w Ok by (intro exI [of _ evs1]) simp
  next
    case Error
    let ?evs = "evs1 @ [Log NavUnexpected]"
    have "trace (navigate_attempts B p u t (attempt # rest) st) = trace st @ ?evs"
      using rs Error e1 by (simp add: emit_def)
    moreover have "goto_sleep ?evs = [Goto p u]"
      using e1(2) by (simp add: goto_sleep_append) (simp add: goto_sleep_def is_goto_or_sleep_def)
    ultimately show ?thesis
      using w Error by (intro exI [of _ ?evs]) simp
  next
    case Timeout
    let ?s' = "emit (Sleep (2 ^ attempt)) (emit (Log (NavTimeoutRetry u (attempt + 1))) s)"
    let ?k2 = "timeouts_in_a_row B p u t (length rest) (world s)"
    have ws: "world ?s' = world s" by (simp add: emit_def)
    obtain evs2 where e2: "trace (navigate_attempts B p u t rest ?s') = trace ?s' @ evs2"
      "evs2 \<noteq> []"
      "goto_sleep evs2 =
         concat (map (\<lambda>attempt. [Goto p u, Sleep (2 ^ attempt)]) (take ?k2 rest))
         @ (if ?k2 = length rest then [] else [Goto p u])"
      "last evs2 = Log NavFailed \<longleftrightarrow> ?k2 = length rest"
      "last evs2 = (case nav_result B p u t (length rest) (world s) of
                     Ok x \<Rightarrow> Dwell p
                   | Timeout \<Rightarrow> Log NavFailed
                   | Error \<Rightarrow> Log NavUnexpected)"
      using Cons.IH [of ?s'] unfolding ws by blast
    let ?evs = "evs1 @ [Log (NavTimeoutRetry u (attempt + 1)), Sleep (2 ^ attempt)] @ evs2"
    have t: "trace (navigate_attempts B p u t (attempt # rest) st) = trace st @ ?evs"
      using rs Timeout e1(1) e2(1) by (simp add: emit_def)
    have l: "last ?evs = last evs2" using e2(2) by simp
    have g: "goto_sleep ?evs = [Goto p u, Sleep (2 ^ attempt)] @ goto_sleep evs2"
      using e1(2) by (simp add: goto_sleep_append) (simp add: goto_sleep_def is_goto_or_sleep_def)
    have k: "timeouts_in_a_row B p u t (length (attempt # rest)) (world st) = Suc ?k2"
      using w Timeout by simp
    have n: "nav_result B p u t (length (attempt # rest)) (world st)
        = nav_result B p u t (length rest) (world s)"
      using w Timeout by simp
    show ?thesis
      using t g e2(2) e2(3) e2(4) e2(5)
      by (intro exI [of _ ?evs]) (simp only: k n l, simp)
  qed
qed


text \<open>
  C7. In every call of \<open>_navigate_to_url\<close> (the function is the same in both files), each
  attempt starts with one call of \<open>goto\<close>. Every attempt that times out, at whichever of
  its four steps, is followed by a sleep of \<open>2 ^ attempt\<close> seconds, \<open>attempt\<close> being its
  number counted from 0, and then by the next attempt if one is left; the first attempt
  that does not time out ends the loop. So when all \<open>max_retries\<close> attempts time out, the
  navigator has made exactly \<open>max_retries\<close> attempts, with sleeps of 1, 2, 4, ... seconds,
  and only then gives up, logging the final failure; it never makes more attempts.
\<close>

theorem backoff_schedule:
  "goto_sleep (new_events st (navigate_to_url B p u t st)) =
     concat (map (\<lambda>attempt. [Goto p u, Sleep (2 ^ attempt)])
               [0..<timeouts_in_a_row B p u t (nat (max_retries (self st))) (world st)])
     @ (if timeouts_in_a_row B p u t (nat (max_retries (self st))) (world st)
           = nat (max_retries (self st))
        then [] else [Goto p u])
   \<and> (last (trace (navigate_to_url B p u t st)) = Log NavFailed
        \<longleftrightarrow> timeouts_in_a_row B p u t (nat (max_retries (self st))) (world st)
            = nat (max_retries (self st)))
   \<and> timeouts_in_a_row B p u t (nat (max_retries (self st))) (world st)
        \<le> nat (max_retries (self st))"
proof -
  let ?n = "nat (max_retries (self st))"
  let ?k = "timeouts_in_a_row B p u t ?n (world st)"
  obtain evs where e:
    "trace (navigate_to_url B p u t st) = trace st @ evs" "evs \<noteq> []"
    "goto_sleep evs =
       concat (map (\<lambda>attempt. [Goto p u, Sleep (2 ^ attempt)]) (take ?k [0..<?n]))
       @ (if ?k = ?n then [] else [Goto p u])"
    "last evs = Log NavFailed \<longleftrightarrow> ?k = ?n"
    using navigate_attempts_events [of B p u t "[0..<?n]" st]
    unfolding navigate_to_url_def by auto
  have n: "new_events st (navigate_to_url B p u t st) = evs"
    using e(1) by (simp add: new_events_def)
  have l: "last (trace (navigate_to_url B p u t st)) = last evs"
    using e(1) e(2) by simp
  have k: "?k \<le> ?n" by (rule timeouts_in_a_row_le)
  then have tk: "take ?k [0..<?n] = [0..<?k]" by (simp add: take_upt)
  show ?thesis
    using k e(3) e(4) by (simp add: n l tk)
qed

theorem backoff_schedule_witness:
  "max_retries (self started) = 3
   \<and> timeouts_in_a_row (fake_browser busy_site) 0 ''http://a'' 30000 3 (world started) = 3
   \<and> goto_sleep (new_events started
        (navigate_to_url (fake_browser busy_site) 0 ''http://a'' 30000 started)) =
       [Goto 0 ''http://a'', Sleep 1, Goto 0 ''http://a'', Sleep 2, Goto 0 ''http://a'', Sleep 4]
   \<and> last (trace (navigate_to_url (fake_browser busy_site) 0 ''http://a'' 30000 started))
       = Log NavFailed
   \<and> timeouts_in_a_row (fake_browser two_page_site) 0 ''http://a'' 30000 3 (world started) = 0
   \<and> goto_sleep (new_events started
        (navigate_to_url (fake_browser two_page_site) 0 ''http://a'' 30000 started)) =
       [Goto 0 ''http://a'']"
proof -
  have m: "nat (max_retries (self started)) = 3" "max_retries (self started) = 3"
    by (simp_all add: started_def default_client_def RufusClient_init_def)
  have k: "timeouts_in_a_row (fake_browser busy_site) 0 ''http://a'' 30000 3 (world started) = 3"
    by code_simp
  have k0: "timeouts_in_a_row (fake_browser two_page_site) 0 ''http://a'' 30000 3 (world started)
      = 0"
    by code_simp
  have u: "[0..<3] = [0, 1, Suc 1]" by code_simp
  show ?thesis
    using m(2) k k0
      backoff_schedule [where B = "fake_browser busy_site" and p = 0 and u = "''http://a''"
        and t = 30000 and st = started]
      backoff_schedule [where B = "fake_browser two_page_site" and p = 0 and u = "''http://a''"
        and t = 30000 and st = started]
    by (simp add: m(1) u)
qed

text \<open>
  C7, as stated for every navigation, fails for the navigation of a discovered link, which
  happens outside \<open>_navigate_to_url\<close>. When the linked page never loads, rufus_rag.py
  (\<open>_retry_navigation\<close>) tries it three times and sleeps 2 seconds after each timeout, and
  rufus.py (\<open>new_page.goto\<close>) tries it once, without a sleep or a retry.
\<close>

theorem link_navigation_other_schedule:
  "goto_sleep (run_trace rag_slow_link_run) =
     [Goto 0 ''http://a'', Goto 0 ''http://b'', Sleep 2, Goto 0 ''http://b'', Sleep 2,
      Goto 0 ''http://b'', Sleep 2]
   \<and> goto_sleep (run_trace slow_link_run) = [Goto 0 ''http://a'', Goto 1 ''http://b'']"
  unfolding rag_slow_link_run_def slow_link_run_def by code_simp

section \<open>Navigation failures and the accumulator\<close>





lemma scrape_accumulates:
  assumes "scrape d B u pr css pgs t st = Some (Ok out, st')"
  shows "prefix (all_data (self st)) (all_data (self st'))
     \<and> out = filter_data (nlp_lemmas B) (all_data (self st'))"
proof -
  obtain r1 s1 where c1: "call Launch (launch B) st = (r1, s1)"
    by (cases "call Launch (launch B) st")
  have e1: "self s1 = self st" using call_same [OF c1] by (simp add: same_data_def)
  let ?a = "\<lparr>css_selector = css, prompt_arg = pr, pages = pgs, timeout = t\<rparr>"
  show ?thesis
  proof (cases r1)
    case Timeout
    then show ?thesis using assms c1 by (simp add: scrape_def)
  next
    case Error
    then show ?thesis using assms c1 by (simp add: scrape_def)
  next
    case (Ok pg)
    show ?thesis
    proof (cases "crawl_links d B ?a pg u (s1\<lparr>visited := {||}\<rparr>)")
      case None
      then show ?thesis using assms c1 Ok by (simp add: scrape_def)
    next
      case (Some body)
      obtain r2 s2 where b: "body = (r2, s2)" by (cases body)
      have "ext (pages ?a) (s1\<lparr>visited := {||}\<rparr>) s2"
        using crawl_links_ext [of d B ?a pg u "s1\<lparr>visited := {||}\<rparr>" r2 s2] Some b by simp
      then have p2: "prefix (all_data (self st)) (all_data (self s2))"
        using e1 by (simp add: ext_def)
      obtain r3 s3 where c3: "call ContextClose (context_close B) s2 = (r3, s3)"
        by (cases "call ContextClose (context_close B) s2")
      have e3: "self s3 = self s2" using call_same [OF c3] by (simp add: same_data_def)
      show ?thesis
        using assms c1 Ok Some b c3 e3 p2
        by (auto simp: scrape_def split: res.splits)
    qed
  qed
qed

text \<open>
  C2. The accumulator is the list \<open>all_data\<close> of the client, created by the constructor and
  never emptied: a call of \<open>scrape\<close> that returns only adds the records it extracts at the
  end of that list, and returns the filter of the whole list, the records of earlier calls
  on the same client included. On a fresh client, whose list is empty, those are the
  records of this call alone.
\<close>

theorem scrape_returns_whole_accumulator:
  "scrape d B u pr css pgs t st = Some (Ok out, st') \<longrightarrow>
     (\<exists>new. all_data (self st') = all_data (self st) @ new
        \<and> out = filter_data (nlp_lemmas B) (all_data (self st) @ new))"
  using scrape_accumulates [of d B u pr css pgs t st out st'] by (auto simp: prefix_def)

theorem scrape_returns_whole_accumulator_witness:
  "\<exists>out st'. first_scrape = Some (Ok out, st')
     \<and> (\<exists>new. all_data (self st') = all_data (self (fresh_state default_client)) @ new
          \<and> out = filter_data (nlp_lemmas (fake_browser two_page_site))
                    (all_data (self (fresh_state default_client)) @ new))"
proof -
  have "returned first_scrape = [''We have a job opening'']"
    unfolding first_scrape_def by code_simp
  then obtain out st' where f: "first_scrape = Some (Ok out, st')"
    by (auto simp: returned_def split: option.splits prod.splits res.splits)
  show ?thesis
    using f scrape_returns_whole_accumulator [where d = 2 and B = "fake_browser two_page_site"
        and u = "''http://a''" and pr = "''hr''" and css = "''p''" and pgs = 1 and t = 30000
        and st = "fresh_state default_client" and out = out and st' = st']
    by (simp add: first_scrape_def)
qed

text \<open>
  C2, as stated, fails: a second call of \<open>scrape\<close> on the same client, which visits and
  extracts the second page only, returns the record of the first call as well.
\<close>

theorem second_scrape_returns_first_records:
  "returned first_scrape = [''We have a job opening'']
   \<and> returned second_scrape = [''We have a job opening'', ''Career fair'']
   \<and> drop 14 (scrape_trace second_scrape) =
       [Launch, Goto 2 ''http://b'', WaitLoadState 2, Scroll 2, Dwell 2, WaitSelector 2,
        Content 2, Log (Extracted ''Career fair''), QueryLinks 2, GetHref 1, NewPage,
        Goto 3 ''http://a'', ClosePage 3, ContextClose]"
  unfolding second_scrape_def first_scrape_def by code_simp

end
